theory Spec2Isabelle
  imports Main
begin

section \<open>The LRU cache of the unit-testing notes\<close>

text \<open>
  The notes on unit tests show two methods of a fixed-capacity LRU cache, \<open>Set\<close> and
  \<open>Get\<close>, over a struct \<open>lruCache\<close> with the fields \<open>capacity\<close>, \<open>queue\<close>, \<open>items\<close>
  and \<open>mutex\<close>. The queue is a doubly linked list of elements, each carrying a \<open>Value\<close> of
  type \<open>interface{}\<close>; the index \<open>items\<close> maps a key to a pointer to a queue element.
\<close>

subsection \<open>Values\<close>

text \<open>A caller's value of type \<open>interface{}\<close>: \<open>nil\<close> or some dynamic value.\<close>

datatype 'v any = Nil | Dyn 'v

text \<open>
  The struct \<open>cacheItem{key, value}\<close> stored in the queue elements; the field \<open>value\<close>
  is \<open>val\<close> here.
\<close>

record ('k, 'v) cacheItem =
  key :: 'k
  val :: "'v any"

text \<open>
  The field \<open>Value\<close> of a queue element is an \<open>interface{}\<close> too: its dynamic type is
  \<open>cacheItem\<close> or it is not, and the type assertion \<open>.(cacheItem)\<close> tells the two apart.
\<close>

datatype ('k, 'v) elemValue = Item "('k, 'v) cacheItem" | NotItem

text \<open>Elements are heap objects; a pointer to one is its address, or \<open>nil\<close>.\<close>

type_synonym addr = nat
type_synonym ptr = "addr option"

subsection \<open>The queue\<close>

text \<open>
  Modelled from the spec: the declaration of the type of \<open>lruCache.queue\<close> is not among
  the sources; \<open>Set\<close> and \<open>Get\<close> only call its methods \<open>PushFront\<close>, \<open>Front\<close> and
  \<open>MoveToFront\<close> and read and write the field \<open>Value\<close> of its elements. The spec describes
  it as the recency ordering, a sequence of the live entries from the most recently used
  (front) to the least recently used (back), with handles into it held by the index. It
  is modelled as a doubly linked list of heap elements with the behaviour of Go's
  \<open>container/list\<close>: \<open>elems\<close> lists the addresses of the linked elements from front to
  back, \<open>Value\<close> is the \<open>Value\<close> field of every element, and \<open>fresh\<close> is the next
  address the allocator gives out.
\<close>

record ('k, 'v) elemList =
  elems :: "addr list"
  Value :: "addr \<Rightarrow> ('k, 'v) elemValue"
  fresh :: addr

definition PushFront :: "('k, 'v) elemList \<Rightarrow> ('k, 'v) elemValue \<Rightarrow> ('k, 'v) elemList" where
  "PushFront l v =
     l\<lparr>elems := fresh l # elems l, Value := (Value l)(fresh l := v), fresh := Suc (fresh l)\<rparr>"

definition Front :: "('k, 'v) elemList \<Rightarrow> ptr" where
  "Front l = (case elems l of [] \<Rightarrow> None | a # _ \<Rightarrow> Some a)"

definition Back :: "('k, 'v) elemList \<Rightarrow> ptr" where
  "Back l = (if elems l = [] then None else Some (last (elems l)))"

definition Len :: "('k, 'v) elemList \<Rightarrow> nat" where
  "Len l = length (elems l)"

text \<open>Moving or removing an element that is not linked into the list does nothing.\<close>

definition MoveToFront :: "('k, 'v) elemList \<Rightarrow> addr \<Rightarrow> ('k, 'v) elemList" where
  "MoveToFront l e = (if e \<in> set (elems l) then l\<lparr>elems := e # remove1 e (elems l)\<rparr> else l)"

definition Remove :: "('k, 'v) elemList \<Rightarrow> addr \<Rightarrow> ('k, 'v) elemList" where
  "Remove l e = (if e \<in> set (elems l) then l\<lparr>elems := remove1 e (elems l)\<rparr> else l)"

subsection \<open>The cache\<close>

record ('k, 'v) lruCache =
  capacity :: int
  queue :: "('k, 'v) elemList"
  items :: "'k \<rightharpoonup> ptr"
  mutex :: bool

text \<open>
  A call returns, panics, or blocks for ever on a mutex that is already held. The state is
  kept in every case, so that what a panic leaves behind can be read.
\<close>

datatype 'a outcome = Returned 'a | Panicked | Blocked

definition Lock :: "('k, 'v) lruCache \<Rightarrow> ('k, 'v) lruCache option" where
  "Lock cache = (if mutex cache then None else Some (cache\<lparr>mutex := True\<rparr>))"

definition Unlock :: "('k, 'v) lruCache \<Rightarrow> ('k, 'v) lruCache" where
  "Unlock cache = cache\<lparr>mutex := False\<rparr>"

text \<open>
  Modelled from the spec: the helper \<open>deleteUnusedIfOverflow\<close> that \<open>Set\<close> calls is not
  among the sources. The spec: if the insertion causes the live count to exceed the
  capacity, evict the entry currently at the back of the ordering, removing it from both
  the index and the ordering; exactly one eviction per overflow. The live count is the
  length of the ordering, and removing an entry from the index removes the binding whose
  handle is the evicted element (\<open>unindex\<close>).
\<close>

definition unindex :: "('k \<rightharpoonup> ptr) \<Rightarrow> addr \<Rightarrow> ('k \<rightharpoonup> ptr)" where
  "unindex m e = (\<lambda>k. if m k = Some (Some e) then None else m k)"

definition deleteUnusedIfOverflow :: "('k, 'v) lruCache \<Rightarrow> ('k, 'v) lruCache" where
  "deleteUnusedIfOverflow cache =
     (if capacity cache < int (Len (queue cache)) then
        (case Back (queue cache) of
           None \<Rightarrow> cache
         | Some e \<Rightarrow>
             cache\<lparr>queue := Remove (queue cache) e, items := unindex (items cache) e\<rparr>)
      else cache)"

text \<open>
  \<open>Set\<close> locks, looks the key up, and either pushes a new element to the front, records
  the front element in the index and calls the overflow helper, or asserts that the found
  element holds a \<open>cacheItem\<close>, writes the new value into it and moves it to the front.
  It unlocks at its end, without \<open>defer\<close>: a panic leaves the mutex held.
\<close>

definition Set ::
  "('k, 'v) lruCache \<Rightarrow> 'k \<Rightarrow> 'v any \<Rightarrow> ('k, 'v) lruCache \<times> bool outcome" where
  "Set cache k v =
     (case Lock cache of
        None \<Rightarrow> (cache, Blocked)
      | Some c1 \<Rightarrow>
          (case items c1 k of
             None \<Rightarrow>
               (let c2 = c1\<lparr>queue := PushFront (queue c1) (Item \<lparr>key = k, val = v\<rparr>)\<rparr>;
                    c3 = c2\<lparr>items := (items c2)(k \<mapsto> Front (queue c2))\<rparr>;
                    c4 = deleteUnusedIfOverflow c3
                in (Unlock c4, Returned False))
           | Some None \<Rightarrow> (c1, Panicked)
           | Some (Some item) \<Rightarrow>
               (case Value (queue c1) item of
                  NotItem \<Rightarrow> (c1, Panicked)
                | Item updatingCacheItem \<Rightarrow>
                    (let c2 = c1\<lparr>queue := (queue c1)\<lparr>Value :=
                                (Value (queue c1))(item := Item (updatingCacheItem\<lparr>val := v\<rparr>))\<rparr>\<rparr>;
                         c3 = c2\<lparr>queue := MoveToFront (queue c2) item\<rparr>
                     in (Unlock c3, Returned True)))))"

text \<open>
  \<open>Get\<close> locks and defers the unlock, so every exit, a panic too, releases the mutex.
  On a hit it moves the element to the front and asserts that it holds a \<open>cacheItem\<close>;
  on a miss it returns the zero value \<open>nil\<close> and \<open>false\<close>.
\<close>

definition Get ::
  "('k, 'v) lruCache \<Rightarrow> 'k \<Rightarrow> ('k, 'v) lruCache \<times> ('v any \<times> bool) outcome" where
  "Get cache k =
     (case Lock cache of
        None \<Rightarrow> (cache, Blocked)
      | Some c1 \<Rightarrow>
          (case items c1 k of
             None \<Rightarrow> (Unlock c1, Returned (Nil, False))
           | Some None \<Rightarrow> (Unlock c1, Panicked)
           | Some (Some item) \<Rightarrow>
               (let c2 = c1\<lparr>queue := MoveToFront (queue c1) item\<rparr>
                in (case Value (queue c2) item of
                      NotItem \<Rightarrow> (Unlock c2, Panicked)
                    | Item it \<Rightarrow> (Unlock c2, Returned (val it, True))))))"

text \<open>
  Modelled from the spec: the constructor is not among the sources (the tests only call
  \<open>NewCache(10)\<close>). The spec: \<open>New(capacity C)\<close> fails with \<open>InvalidCapacity\<close> if \<open>C < 1\<close>,
  and returns an empty cache otherwise.
\<close>

datatype error = InvalidCapacity

definition emptyCache :: "int \<Rightarrow> ('k, 'v) lruCache" where
  "emptyCache C =
     \<lparr>capacity = C,
      queue = \<lparr>elems = [], Value = (\<lambda>_. NotItem), fresh = 0\<rparr>,
      items = Map.empty,
      mutex = False\<rparr>"

definition New :: "int \<Rightarrow> error + ('k, 'v) lruCache" where
  "New C = (if C < 1 then Inl InvalidCapacity else Inr (emptyCache C))"

subsection \<open>Sequences of calls\<close>

datatype ('k, 'v) op = SetOp 'k "'v any" | GetOp 'k

text \<open>Runs the calls in order; \<open>None\<close> when one of them does not return.\<close>

fun run :: "('k, 'v) lruCache \<Rightarrow> ('k, 'v) op list \<Rightarrow> ('k, 'v) lruCache option" where
  "run cache [] = Some cache"
| "run cache (SetOp k v # ops) =
     (case Set cache k v of (c', Returned _) \<Rightarrow> run c' ops | _ \<Rightarrow> None)"
| "run cache (GetOp k # ops) =
     (case Get cache k of (c', Returned _) \<Rightarrow> run c' ops | _ \<Rightarrow> None)"

text \<open>
  The keys of a sequence of calls by their last call, the most recent first: every call
  puts its key in front of the others.
\<close>

fun opKey :: "('k, 'v) op \<Rightarrow> 'k" where
  "opKey (SetOp k v) = k"
| "opKey (GetOp k) = k"

definition touch :: "'k list \<Rightarrow> ('k, 'v) op \<Rightarrow> 'k list" where
  "touch acc x = opKey x # removeAll (opKey x) acc"

definition touched :: "('k, 'v) op list \<Rightarrow> 'k list" where
  "touched ops = foldl touch [] ops"

subsection \<open>What the cache holds\<close>

text \<open>The key and value of every queue element that holds a \<open>cacheItem\<close>, front to back.\<close>

fun entriesOf :: "(addr \<Rightarrow> ('k, 'v) elemValue) \<Rightarrow> addr list \<Rightarrow> ('k \<times> 'v any) list" where
  "entriesOf V [] = []"
| "entriesOf V (a # as) =
     (case V a of Item it \<Rightarrow> (key it, val it) # entriesOf V as | NotItem \<Rightarrow> entriesOf V as)"

definition entries :: "('k, 'v) lruCache \<Rightarrow> ('k \<times> 'v any) list" where
  "entries cache = entriesOf (Value (queue cache)) (elems (queue cache))"

text \<open>
  The keys the cache holds, by their last call in \<open>ops\<close>, the most recently touched
  first and the least recently touched last.
\<close>

definition byRecency :: "('k, 'v) lruCache \<Rightarrow> ('k, 'v) op list \<Rightarrow> 'k list" where
  "byRecency cache ops = filter (\<lambda>k. items cache k \<noteq> None) (touched ops)"

subsection \<open>The invariant\<close>

text \<open>
  The index and the queue correspond: the linked elements are distinct and were given out
  by the allocator, every linked element holds a \<open>cacheItem\<close> whose key is bound in the
  index to that very element, and every binding of the index points to a linked element
  that holds a \<open>cacheItem\<close> with the bound key.
\<close>

definition indexed :: "('k, 'v) lruCache \<Rightarrow> bool" where
  "indexed cache \<longleftrightarrow>
     distinct (elems (queue cache)) \<and>
     (\<forall>a \<in> set (elems (queue cache)). a < fresh (queue cache)) \<and>
     (\<forall>a \<in> set (elems (queue cache)).
        \<exists>it. Value (queue cache) a = Item it \<and> items cache (key it) = Some (Some a)) \<and>
     (\<forall>k p. items cache k = Some p \<longrightarrow>
        (\<exists>a \<in> set (elems (queue cache)). p = Some a \<and>
           (\<exists>it. Value (queue cache) a = Item it \<and> key it = k)))"

text \<open>
  Between calls the mutex is free, the capacity is positive and the queue is no longer
  than the capacity.
\<close>

definition cacheInv :: "('k, 'v) lruCache \<Rightarrow> bool" where
  "cacheInv cache \<longleftrightarrow>
     \<not> mutex cache \<and> 1 \<le> capacity cache \<and>
     int (Len (queue cache)) \<le> capacity cache \<and> indexed cache"

text \<open>The state of \<open>Set\<close> on a new key, before it calls the overflow helper.\<close>

definition pushed :: "('k, 'v) lruCache \<Rightarrow> 'k \<Rightarrow> 'v any \<Rightarrow> ('k, 'v) lruCache" where
  "pushed cache k v =
     cache\<lparr>queue := PushFront (queue cache) (Item \<lparr>key = k, val = v\<rparr>),
           items := (items cache)(k \<mapsto> Some (fresh (queue cache)))\<rparr>"

section \<open>Properties of the queue contents\<close>

lemma entriesOf_append: "entriesOf V (xs @ ys) = entriesOf V xs @ entriesOf V ys"
  by (induction xs) (auto split: elemValue.splits)

lemma entriesOf_cong: "(\<And>a. a \<in> set xs \<Longrightarrow> V a = W a) \<Longrightarrow> entriesOf V xs = entriesOf W xs"
  by (induction xs) (auto split: elemValue.splits)

lemma entriesOf_upd_other: "e \<notin> set xs \<Longrightarrow> entriesOf (V(e := x)) xs = entriesOf V xs"
  by (rule entriesOf_cong) auto

lemma set_entriesOf:
  "set (entriesOf V xs) = {(key it, val it) | a it. a \<in> set xs \<and> V a = Item it}"
  by (induction xs) (auto split: elemValue.splits)

lemma length_entriesOf:
  "\<forall>a \<in> set xs. \<exists>it. V a = Item it \<Longrightarrow> length (entriesOf V xs) = length xs"
  by (induction xs) (auto split: elemValue.splits)

lemma entriesOf_remove1:
  assumes "V e = Item it"
    and "\<And>b it'. b \<in> set xs \<Longrightarrow> V b = Item it' \<Longrightarrow> key it' = key it \<Longrightarrow> b = e"
    and "distinct xs"
  shows "entriesOf V (remove1 e xs) = filter (\<lambda>p. fst p \<noteq> key it) (entriesOf V xs)"
  using assms
proof (induction xs)
  case Nil
  then show ?case by simp
next
  case (Cons b xs)
  have ih: "entriesOf V (remove1 e xs) = filter (\<lambda>p. fst p \<noteq> key it) (entriesOf V xs)"
    using Cons by simp
  show ?case
  proof (cases "b = e")
    case True
    then have "e \<notin> set xs" using Cons.prems(3) by simp
    then have "remove1 e xs = xs" by (simp add: remove1_idem)
    then show ?thesis using True ih Cons.prems(1) by simp
  next
    case False
    then show ?thesis using ih Cons.prems(2)[of b] by (auto split: elemValue.splits)
  qed
qed

lemma remove1_last: "distinct xs \<Longrightarrow> xs \<noteq> [] \<Longrightarrow> remove1 (last xs) xs = butlast xs"
proof -
  assume d: "distinct xs" and ne: "xs \<noteq> []"
  have xs: "xs = butlast xs @ [last xs]" using ne by simp
  have "last xs \<notin> set (butlast xs)" using d xs by (metis distinct_butlast not_distinct_conv_prefix)
  then have "remove1 (last xs) (butlast xs @ [last xs]) = butlast xs"
    by (simp add: remove1_append)
  then show ?thesis using xs by simp
qed

lemma entriesOf_butlast:
  "\<forall>a \<in> set xs. \<exists>it. V a = Item it \<Longrightarrow> entriesOf V (butlast xs) = butlast (entriesOf V xs)"
proof (cases "xs = []")
  case True
  then show ?thesis by simp
next
  case False
  assume all: "\<forall>a \<in> set xs. \<exists>it. V a = Item it"
  have xs: "xs = butlast xs @ [last xs]" using False by simp
  obtain it where "V (last xs) = Item it" using all False last_in_set by blast
  then have "entriesOf V (butlast xs @ [last xs]) = entriesOf V (butlast xs) @ [(key it, val it)]"
    by (simp add: entriesOf_append)
  then have "entriesOf V xs = entriesOf V (butlast xs) @ [(key it, val it)]"
    using xs by simp
  then show ?thesis by simp
qed

lemma indexed_dom: "indexed cache \<Longrightarrow> dom (items cache) = fst ` set (entries cache)"
  unfolding indexed_def entries_def set_entriesOf
  by (auto simp: dom_def image_iff) metis+


lemma Get_miss:
  "\<not> mutex cache \<Longrightarrow> items cache k = None \<Longrightarrow> Get cache k = (cache, Returned (Nil, False))"
  by (simp add: Get_def Lock_def Unlock_def)

lemma Get_hit:
  assumes "\<not> mutex cache" and "items cache k = Some (Some a)"
    and "a \<in> set (elems (queue cache))" and "Value (queue cache) a = Item it"
  shows "Get cache k =
    (cache\<lparr>queue := (queue cache)\<lparr>elems := a # remove1 a (elems (queue cache))\<rparr>\<rparr>,
     Returned (val it, True))"
  using assms by (simp add: Get_def Lock_def Unlock_def MoveToFront_def Let_def)

lemma Set_hit:
  assumes "\<not> mutex cache" and "items cache k = Some (Some a)"
    and "a \<in> set (elems (queue cache))" and "Value (queue cache) a = Item it"
  shows "Set cache k v =
    (cache\<lparr>queue := (queue cache)\<lparr>elems := a # remove1 a (elems (queue cache)),
        Value := (Value (queue cache))(a := Item (it\<lparr>val := v\<rparr>))\<rparr>\<rparr>,
     Returned True)"
  using assms by (simp add: Set_def Lock_def Unlock_def MoveToFront_def Let_def)

lemma deleteUnusedIfOverflow_mutex:
  "deleteUnusedIfOverflow (cache\<lparr>mutex := b\<rparr>) = (deleteUnusedIfOverflow cache)\<lparr>mutex := b\<rparr>"
  by (cases cache) (simp add: deleteUnusedIfOverflow_def split: option.splits)

lemma deleteUnusedIfOverflow_mutex_sel:
  "mutex (deleteUnusedIfOverflow cache) = mutex cache"
  by (simp add: deleteUnusedIfOverflow_def split: option.splits)

lemma Set_new:
  assumes "\<not> mutex cache" and "items cache k = None"
  shows "Set cache k v = (deleteUnusedIfOverflow (pushed cache k v), Returned False)"
proof -
  have front: "Front (PushFront l x) = Some (fresh l)" for l :: "('a, 'b) elemList" and x
    by (simp add: Front_def PushFront_def)
  have m: "\<not> mutex (deleteUnusedIfOverflow (pushed cache k v))"
    using assms(1) by (simp add: deleteUnusedIfOverflow_mutex_sel pushed_def)
  have "Set cache k v =
      ((deleteUnusedIfOverflow ((pushed cache k v)\<lparr>mutex := True\<rparr>))\<lparr>mutex := False\<rparr>,
       Returned False)"
    using assms by (cases cache) (simp add: Set_def Lock_def Unlock_def Let_def pushed_def front)
  also have "(deleteUnusedIfOverflow ((pushed cache k v)\<lparr>mutex := True\<rparr>))\<lparr>mutex := False\<rparr>
      = deleteUnusedIfOverflow (pushed cache k v)"
    using m by (simp add: deleteUnusedIfOverflow_mutex)
  finally show ?thesis .
qed


lemma indexed_key:
  assumes "indexed cache" and "items cache k = Some p"
  shows "\<exists>a it. p = Some a \<and> a \<in> set (elems (queue cache)) \<and>
           Value (queue cache) a = Item it \<and> key it = k"
  using assms unfolding indexed_def by blast

lemma indexed_inj:
  assumes "indexed cache" and "b \<in> set (elems (queue cache))"
    and "Value (queue cache) b = Item it'" and "items cache (key it') = Some (Some a)"
  shows "b = a"
  using assms unfolding indexed_def by fastforce

lemma indexed_all_items:
  "indexed cache \<Longrightarrow> \<forall>a \<in> set (elems (queue cache)). \<exists>it. Value (queue cache) a = Item it"
  unfolding indexed_def by blast

lemma length_entries: "indexed cache \<Longrightarrow> length (entries cache) = Len (queue cache)"
  unfolding entries_def Len_def by (rule length_entriesOf) (rule indexed_all_items)

lemma indexedI:
  assumes "distinct (elems (queue cache))"
    and "\<And>a. a \<in> set (elems (queue cache)) \<Longrightarrow> a < fresh (queue cache)"
    and "\<And>a. a \<in> set (elems (queue cache)) \<Longrightarrow>
           \<exists>it. Value (queue cache) a = Item it \<and> items cache (key it) = Some (Some a)"
    and "\<And>k p. items cache k = Some p \<Longrightarrow>
           \<exists>a it. a \<in> set (elems (queue cache)) \<and> p = Some a \<and>
              Value (queue cache) a = Item it \<and> key it = k"
  shows "indexed cache"
  unfolding indexed_def using assms by blast

lemma indexed_elem:
  assumes "indexed cache" and "a \<in> set (elems (queue cache))"
  shows "\<exists>it. Value (queue cache) a = Item it \<and> items cache (key it) = Some (Some a)"
  using assms unfolding indexed_def by blast

lemma indexed_distinct: "indexed cache \<Longrightarrow> distinct (elems (queue cache))"
  unfolding indexed_def by blast

lemma indexed_fresh: "indexed cache \<Longrightarrow> a \<in> set (elems (queue cache)) \<Longrightarrow> a < fresh (queue cache)"
  unfolding indexed_def by blast

lemma moved_indexed:
  assumes "indexed cache" and "a \<in> set (elems (queue cache))"
  shows "indexed (cache\<lparr>queue := (queue cache)\<lparr>elems := a # remove1 a (elems (queue cache))\<rparr>\<rparr>)"
proof (rule indexedI)
  let ?c = "cache\<lparr>queue := (queue cache)\<lparr>elems := a # remove1 a (elems (queue cache))\<rparr>\<rparr>"
  have s: "set (elems (queue ?c)) = set (elems (queue cache))"
    using assms(2) indexed_distinct[OF assms(1)] by auto
  have m: "b \<in> set (elems (queue cache))" if "b \<in> set (elems (queue ?c))" for b
    using that s by blast
  show "distinct (elems (queue ?c))" using indexed_distinct[OF assms(1)] by simp
  show "b < fresh (queue ?c)" if "b \<in> set (elems (queue ?c))" for b
    using m[OF that] indexed_fresh[OF assms(1), of b] by simp
  show "\<exists>it. Value (queue ?c) b = Item it \<and> items ?c (key it) = Some (Some b)"
    if "b \<in> set (elems (queue ?c))" for b
    using m[OF that] indexed_elem[OF assms(1), of b] by simp
  show "\<exists>b it. b \<in> set (elems (queue ?c)) \<and> p = Some b \<and>
      Value (queue ?c) b = Item it \<and> key it = k" if "items ?c k = Some p" for k p
  proof -
    have "items cache k = Some p" using that by simp
    from indexed_key[OF assms(1) this] obtain b it where
      b: "p = Some b" "b \<in> set (elems (queue cache))" "Value (queue cache) b = Item it" "key it = k"
      by blast
    then have "b \<in> set (elems (queue ?c))" using s by blast
    then show ?thesis using b by auto
  qed
qed

lemma updated_indexed:
  assumes "indexed cache" and "items cache k = Some (Some a)"
    and "Value (queue cache) a = Item it"
  shows "indexed (cache\<lparr>queue := (queue cache)\<lparr>elems := a # remove1 a (elems (queue cache)),
        Value := (Value (queue cache))(a := Item (it\<lparr>val := v\<rparr>))\<rparr>\<rparr>)"
proof (rule indexedI)
  let ?c = "cache\<lparr>queue := (queue cache)\<lparr>elems := a # remove1 a (elems (queue cache)),
        Value := (Value (queue cache))(a := Item (it\<lparr>val := v\<rparr>))\<rparr>\<rparr>"
  have a: "a \<in> set (elems (queue cache))" using indexed_key[OF assms(1,2)] by auto
  have s: "set (elems (queue ?c)) = set (elems (queue cache))"
    using a indexed_distinct[OF assms(1)] by auto
  have m: "b \<in> set (elems (queue cache))" if "b \<in> set (elems (queue ?c))" for b
    using that s by blast
  have ka: "items cache (key it) = Some (Some a)"
    using indexed_elem[OF assms(1) a] assms(3) by simp
  show "distinct (elems (queue ?c))" using indexed_distinct[OF assms(1)] by simp
  show "b < fresh (queue ?c)" if "b \<in> set (elems (queue ?c))" for b
    using m[OF that] indexed_fresh[OF assms(1), of b] by simp
  show "\<exists>it. Value (queue ?c) b = Item it \<and> items ?c (key it) = Some (Some b)"
    if "b \<in> set (elems (queue ?c))" for b
  proof (cases "b = a")
    case True
    then show ?thesis using ka by simp
  next
    case False
    then show ?thesis using m[OF that] indexed_elem[OF assms(1), of b] by simp
  qed
  show "\<exists>b it. b \<in> set (elems (queue ?c)) \<and> p = Some b \<and>
      Value (queue ?c) b = Item it \<and> key it = k'" if "items ?c k' = Some p" for k' p
  proof -
    have "items cache k' = Some p" using that by simp
    from indexed_key[OF assms(1) this] obtain b it' where
      b: "p = Some b" "b \<in> set (elems (queue cache))" "Value (queue cache) b = Item it'" "key it' = k'"
      by blast
    show ?thesis
    proof (cases "b = a")
      case True
      then have "Value (queue ?c) b = Item (it\<lparr>val := v\<rparr>) \<and> key (it\<lparr>val := v\<rparr>) = k'"
        using b assms(3) by simp
      then show ?thesis using b s by blast
    next
      case False
      then have "Value (queue ?c) b = Item it'" using b by simp
      then show ?thesis using b s by blast
    qed
  qed
qed

lemma pushed_indexed:
  assumes "indexed cache" and "items cache k = None"
  shows "indexed (pushed cache k v)"
proof (rule indexedI)
  let ?c = "pushed cache k v"
  let ?n = "fresh (queue cache)"
  have n: "?n \<notin> set (elems (queue cache))" using indexed_fresh[OF assms(1), of ?n] by auto
  have es: "elems (queue ?c) = ?n # elems (queue cache)" by (simp add: pushed_def PushFront_def)
  have V: "Value (queue ?c) = (Value (queue cache))(?n := Item \<lparr>key = k, val = v\<rparr>)"
    by (simp add: pushed_def PushFront_def)
  have I: "items ?c = (items cache)(k \<mapsto> Some ?n)" by (simp add: pushed_def)
  have F: "fresh (queue ?c) = Suc ?n" by (simp add: pushed_def PushFront_def)
  show "distinct (elems (queue ?c))" using indexed_distinct[OF assms(1)] n es by simp
  show "b < fresh (queue ?c)" if "b \<in> set (elems (queue ?c))" for b
    using that es F indexed_fresh[OF assms(1), of b] by auto
  show "\<exists>it. Value (queue ?c) b = Item it \<and> items ?c (key it) = Some (Some b)"
    if "b \<in> set (elems (queue ?c))" for b
  proof (cases "b = ?n")
    case True
    then show ?thesis using V I by simp
  next
    case False
    then have b: "b \<in> set (elems (queue cache))" using that es by simp
    from indexed_elem[OF assms(1) b] obtain it where
      it: "Value (queue cache) b = Item it" "items cache (key it) = Some (Some b)" by blast
    then have "key it \<noteq> k" using assms(2) by auto
    then show ?thesis using it False V I by simp
  qed
  show "\<exists>b it. b \<in> set (elems (queue ?c)) \<and> p = Some b \<and>
      Value (queue ?c) b = Item it \<and> key it = k'" if "items ?c k' = Some p" for k' p
  proof (cases "k' = k")
    case True
    then have "p = Some ?n" using that I by simp
    then show ?thesis using True es V by simp
  next
    case False
    then have "items cache k' = Some p" using that I by simp
    from indexed_key[OF assms(1) this] obtain b it' where
      b: "p = Some b" "b \<in> set (elems (queue cache))" "Value (queue cache) b = Item it'" "key it' = k'"
      by blast
    then have "b \<noteq> ?n" using n by auto
    then have "Value (queue ?c) b = Item it'" using b V by simp
    then show ?thesis using b es by auto
  qed
qed

lemma deleteUnusedIfOverflow_eq:
  assumes "indexed cache"
  shows "deleteUnusedIfOverflow cache =
     (if capacity cache < int (Len (queue cache)) \<and> elems (queue cache) \<noteq> [] then
        cache\<lparr>queue := (queue cache)\<lparr>elems := butlast (elems (queue cache))\<rparr>,
              items := unindex (items cache) (last (elems (queue cache)))\<rparr>
      else cache)"
  using indexed_distinct[OF assms]
  by (simp add: deleteUnusedIfOverflow_def Back_def Remove_def remove1_last)

lemma deleted_indexed:
  assumes "indexed cache"
  shows "indexed (deleteUnusedIfOverflow cache)"
proof (cases "capacity cache < int (Len (queue cache)) \<and> elems (queue cache) \<noteq> []")
  case False
  have "deleteUnusedIfOverflow cache = cache"
    by (simp only: deleteUnusedIfOverflow_eq[OF assms] False if_False)
  then show ?thesis using assms by simp
next
  case True
  let ?es = "elems (queue cache)"
  let ?c = "cache\<lparr>queue := (queue cache)\<lparr>elems := butlast ?es\<rparr>,
              items := unindex (items cache) (last ?es)\<rparr>"
  have d: "distinct ?es" using assms by (rule indexed_distinct)
  have s: "set (butlast ?es) = set ?es - {last ?es}"
    using d True by (metis remove1_last set_remove1_eq)
  have "indexed ?c"
  proof (rule indexedI)
    show "distinct (elems (queue ?c))" using d by (simp add: distinct_butlast)
    show "b < fresh (queue ?c)" if "b \<in> set (elems (queue ?c))" for b
      using that s indexed_fresh[OF assms, of b] by simp
    show "\<exists>it. Value (queue ?c) b = Item it \<and> items ?c (key it) = Some (Some b)"
      if "b \<in> set (elems (queue ?c))" for b
    proof -
      have b: "b \<in> set ?es" "b \<noteq> last ?es" using that s by auto
      from indexed_elem[OF assms b(1)] obtain it where
        it: "Value (queue cache) b = Item it" "items cache (key it) = Some (Some b)" by blast
      then show ?thesis using b by (simp add: unindex_def)
    qed
    show "\<exists>b it. b \<in> set (elems (queue ?c)) \<and> p = Some b \<and>
        Value (queue ?c) b = Item it \<and> key it = k'" if "items ?c k' = Some p" for k' p
    proof -
      have p: "items cache k' = Some p" "p \<noteq> Some (last ?es)"
        using that by (auto simp: unindex_def split: if_splits)
      from indexed_key[OF assms p(1)] obtain b it' where
        b: "p = Some b" "b \<in> set ?es" "Value (queue cache) b = Item it'" "key it' = k'"
        by blast
      then have "b \<in> set (butlast ?es)" using p(2) s by auto
      then show ?thesis using b by auto
    qed
  qed
  moreover have "deleteUnusedIfOverflow cache = ?c"
    using True by (simp add: deleteUnusedIfOverflow_eq[OF assms])
  ultimately show ?thesis by simp
qed


lemma distinct_keys_entriesOf:
  assumes "distinct xs"
    and "\<And>a b ia ib. a \<in> set xs \<Longrightarrow> b \<in> set xs \<Longrightarrow> V a = Item ia \<Longrightarrow> V b = Item ib \<Longrightarrow>
           key ia = key ib \<Longrightarrow> a = b"
  shows "distinct (map fst (entriesOf V xs))"
  using assms
proof (induction xs)
  case Nil
  then show ?case by simp
next
  case (Cons a xs)
  have ih: "distinct (map fst (entriesOf V xs))"
    using Cons.IH Cons.prems by (metis distinct.simps(2) list.set_intros(2))
  show ?case
  proof (cases "V a")
    case NotItem
    then show ?thesis using ih by simp
  next
    case (Item it)
    have "key it \<notin> fst ` set (entriesOf V xs)"
    proof
      assume "key it \<in> fst ` set (entriesOf V xs)"
      then obtain b it' where b: "b \<in> set xs" "V b = Item it'" "key it' = key it"
        unfolding set_entriesOf by auto
      then have "a = b" using Cons.prems(2)[of a b it it'] Item by simp
      then show False using b(1) Cons.prems(1) by simp
    qed
    then show ?thesis using ih Item by simp
  qed
qed

lemma indexed_distinct_keys:
  assumes "indexed cache"
  shows "distinct (map fst (entries cache))"
  unfolding entries_def
proof (rule distinct_keys_entriesOf)
  show "distinct (elems (queue cache))" using assms by (rule indexed_distinct)
  fix a b ia ib
  assume h: "a \<in> set (elems (queue cache))" "b \<in> set (elems (queue cache))"
    "Value (queue cache) a = Item ia" "Value (queue cache) b = Item ib" "key ia = key ib"
  have "items cache (key ia) = Some (Some a)" using indexed_elem[OF assms h(1)] h(3) by simp
  moreover have "items cache (key ib) = Some (Some b)" using indexed_elem[OF assms h(2)] h(4) by simp
  ultimately show "a = b" using h(5) by simp
qed

lemma indexed_map_of_hit:
  assumes "indexed cache" and "items cache k = Some (Some a)" and "Value (queue cache) a = Item it"
  shows "map_of (entries cache) k = Some (val it)"
proof -
  from indexed_key[OF assms(1,2)] assms(3)
  have a: "a \<in> set (elems (queue cache))" and k: "key it = k" by auto
  have "(k, val it) \<in> set (entries cache)"
    unfolding entries_def set_entriesOf using a k assms(3) by blast
  then show ?thesis using indexed_distinct_keys[OF assms(1)] by simp
qed

lemma indexed_map_of_miss:
  assumes "indexed cache" and "items cache k = None"
  shows "map_of (entries cache) k = None"
proof -
  have "k \<notin> dom (items cache)" using assms(2) by auto
  then have "k \<notin> fst ` set (entries cache)" using indexed_dom[OF assms(1)] by simp
  then show ?thesis by (simp add: map_of_eq_None_iff)
qed

lemma moved_entriesOf:
  assumes "indexed cache" and "items cache k = Some (Some a)" and "Value (queue cache) a = Item it"
  shows "entriesOf (Value (queue cache)) (remove1 a (elems (queue cache))) =
         filter (\<lambda>p. fst p \<noteq> k) (entries cache)"
proof -
  from indexed_key[OF assms(1,2)] assms(3) have k: "key it = k" by auto
  have "entriesOf (Value (queue cache)) (remove1 a (elems (queue cache))) =
      filter (\<lambda>p. fst p \<noteq> key it) (entriesOf (Value (queue cache)) (elems (queue cache)))"
  proof (rule entriesOf_remove1[where V = "Value (queue cache)" and e = a and it = it])
    show "Value (queue cache) a = Item it" by (rule assms(3))
    show "distinct (elems (queue cache))" using assms(1) by (rule indexed_distinct)
    fix b it'
    assume h: "b \<in> set (elems (queue cache))" "Value (queue cache) b = Item it'" "key it' = key it"
    show "b = a" using indexed_inj[OF assms(1) h(1,2)] h(3) k assms(2) by simp
  qed
  then show ?thesis using k by (simp add: entries_def)
qed

lemma moved_entries:
  assumes "indexed cache" and "items cache k = Some (Some a)" and "Value (queue cache) a = Item it"
  shows "entries (cache\<lparr>queue := (queue cache)\<lparr>elems := a # remove1 a (elems (queue cache))\<rparr>\<rparr>) =
         (k, val it) # filter (\<lambda>p. fst p \<noteq> k) (entries cache)"
proof -
  from indexed_key[OF assms(1,2)] assms(3) have k: "key it = k" by auto
  show ?thesis using moved_entriesOf[OF assms] assms(3) k by (simp add: entries_def)
qed

lemma updated_entries:
  assumes "indexed cache" and "items cache k = Some (Some a)" and "Value (queue cache) a = Item it"
  shows "entries (cache\<lparr>queue := (queue cache)\<lparr>elems := a # remove1 a (elems (queue cache)),
           Value := (Value (queue cache))(a := Item (it\<lparr>val := v\<rparr>))\<rparr>\<rparr>) =
         (k, v) # filter (\<lambda>p. fst p \<noteq> k) (entries cache)"
proof -
  from indexed_key[OF assms(1,2)] assms(3) have k: "key it = k" by auto
  have "a \<notin> set (remove1 a (elems (queue cache)))"
    using indexed_distinct[OF assms(1)] by simp
  then have "entriesOf ((Value (queue cache))(a := Item (it\<lparr>val := v\<rparr>)))
        (remove1 a (elems (queue cache))) =
      entriesOf (Value (queue cache)) (remove1 a (elems (queue cache)))"
    by (rule entriesOf_upd_other)
  then show ?thesis using moved_entriesOf[OF assms] k by (simp add: entries_def)
qed

lemma pushed_entries:
  assumes "indexed cache"
  shows "entries (pushed cache k v) = (k, v) # entries cache"
proof -
  have "fresh (queue cache) \<notin> set (elems (queue cache))"
    using indexed_fresh[OF assms, of "fresh (queue cache)"] by auto
  then show ?thesis
    by (simp add: entries_def pushed_def PushFront_def entriesOf_upd_other)
qed

lemma deleted_entries:
  assumes "indexed cache"
  shows "entries (deleteUnusedIfOverflow cache) =
     (if capacity cache < int (length (entries cache)) then butlast (entries cache)
      else entries cache)"
proof -
  have len: "length (entries cache) = Len (queue cache)" using assms by (rule length_entries)
  have bl: "entriesOf (Value (queue cache)) (butlast (elems (queue cache))) = butlast (entries cache)"
    unfolding entries_def by (rule entriesOf_butlast) (rule indexed_all_items[OF assms])
  show ?thesis
  proof (cases "elems (queue cache) = []")
    case True
    then show ?thesis by (simp add: deleteUnusedIfOverflow_eq[OF assms] entries_def)
  next
    case False
    then show ?thesis using len bl by (simp add: deleteUnusedIfOverflow_eq[OF assms] entries_def)
  qed
qed

section \<open>What a call does to a cache that satisfies the invariant\<close>

lemma cacheInv_facts:
  assumes "cacheInv cache"
  shows "dom (items cache) = fst ` set (entries cache)"
    and "distinct (map fst (entries cache))"
    and "int (length (entries cache)) \<le> capacity cache"
    and "1 \<le> capacity cache"
    and "\<not> mutex cache"
    and "length (entries cache) = Len (queue cache)"
  using assms
  by (simp_all add: cacheInv_def indexed_dom indexed_distinct_keys length_entries)

lemma Get_spec:
  assumes "cacheInv cache"
  shows "\<exists>c'. Get cache k =
           (c', Returned (case map_of (entries cache) k of
                            None \<Rightarrow> (Nil, False) | Some v \<Rightarrow> (v, True))) \<and>
         cacheInv c' \<and> capacity c' = capacity cache \<and>
         entries c' = (case map_of (entries cache) k of
                         None \<Rightarrow> entries cache
                       | Some v \<Rightarrow> (k, v) # filter (\<lambda>p. fst p \<noteq> k) (entries cache))"
proof -
  have ix: "indexed cache" and m: "\<not> mutex cache" using assms by (simp_all add: cacheInv_def)
  show ?thesis
  proof (cases "items cache k")
    case None
    then show ?thesis
      using assms by (simp add: Get_miss[OF m None] indexed_map_of_miss[OF ix None])
  next
    case (Some p)
    from indexed_key[OF ix Some] obtain a it where
      a: "p = Some a" "a \<in> set (elems (queue cache))" "Value (queue cache) a = Item it" "key it = k"
      by blast
    have i: "items cache k = Some (Some a)" using Some a(1) by simp
    let ?c = "cache\<lparr>queue := (queue cache)\<lparr>elems := a # remove1 a (elems (queue cache))\<rparr>\<rparr>"
    have g: "Get cache k = (?c, Returned (val it, True))" by (rule Get_hit[OF m i a(2,3)])
    have mo: "map_of (entries cache) k = Some (val it)" by (rule indexed_map_of_hit[OF ix i a(3)])
    have ix': "indexed ?c" by (rule moved_indexed[OF ix a(2)])
    have "length (a # remove1 a (elems (queue cache))) = length (elems (queue cache))"
      using a(2) by (simp add: length_remove1) (metis Suc_pred length_pos_if_in_set)
    then have inv': "cacheInv ?c" using assms ix' by (simp add: cacheInv_def Len_def)
    show ?thesis using g mo inv' moved_entries[OF ix i a(3)] by simp
  qed
qed

lemma Set_spec:
  assumes "cacheInv cache"
  shows "\<exists>c'. Set cache k v = (c', Returned (k \<in> fst ` set (entries cache))) \<and>
         cacheInv c' \<and> capacity c' = capacity cache \<and>
         entries c' = take (nat (capacity cache))
                        ((k, v) # filter (\<lambda>p. fst p \<noteq> k) (entries cache))"
proof -
  have ix: "indexed cache" and m: "\<not> mutex cache" using assms by (simp_all add: cacheInv_def)
  note f = cacheInv_facts[OF assms]
  show ?thesis
  proof (cases "items cache k")
    case None
    let ?p = "pushed cache k v"
    let ?c = "deleteUnusedIfOverflow ?p"
    have s: "Set cache k v = (?c, Returned False)" by (rule Set_new[OF m None])
    have nk: "k \<notin> fst ` set (entries cache)" using None f(1) by (metis domIff)
    then have fl: "filter (\<lambda>p. fst p \<noteq> k) (entries cache) = entries cache"
      by (auto simp: filter_id_conv)
    have ixp: "indexed ?p" by (rule pushed_indexed[OF ix None])
    have ep: "entries ?p = (k, v) # entries cache" by (rule pushed_entries[OF ix])
    have ix': "indexed ?c" by (rule deleted_indexed[OF ixp])
    have cp: "capacity ?p = capacity cache" by (simp add: pushed_def)
    have e': "entries ?c = take (nat (capacity cache)) ((k, v) # entries cache)"
    proof (cases "capacity cache < int (length ((k, v) # entries cache))")
      case True
      then have "length ((k, v) # entries cache) = Suc (nat (capacity cache))"
        using f(3,4) by simp
      then have "butlast ((k, v) # entries cache) = take (nat (capacity cache)) ((k, v) # entries cache)"
        by (metis butlast_conv_take diff_Suc_1)
      then show ?thesis using True by (simp only: deleted_entries[OF ixp] ep cp if_True)
    next
      case False
      then have "take (nat (capacity cache)) ((k, v) # entries cache) = (k, v) # entries cache"
        by simp
      then show ?thesis using False by (simp only: deleted_entries[OF ixp] ep cp if_False)
    qed
    have c': "capacity ?c = capacity cache"
      by (simp add: deleteUnusedIfOverflow_def pushed_def split: option.splits)
    have m': "\<not> mutex ?c" using m by (simp add: deleteUnusedIfOverflow_mutex_sel pushed_def)
    have "int (length (entries ?c)) \<le> capacity cache" unfolding e' using f(4) by simp
    then have inv': "cacheInv ?c"
      using ix' c' m' f(4) length_entries[OF ix'] by (simp add: cacheInv_def)
    show ?thesis using s nk inv' c' e' fl by simp
  next
    case (Some p)
    from indexed_key[OF ix Some] obtain a it where
      a: "p = Some a" "a \<in> set (elems (queue cache))" "Value (queue cache) a = Item it" "key it = k"
      by blast
    have i: "items cache k = Some (Some a)" using Some a(1) by simp
    let ?c = "cache\<lparr>queue := (queue cache)\<lparr>elems := a # remove1 a (elems (queue cache)),
        Value := (Value (queue cache))(a := Item (it\<lparr>val := v\<rparr>))\<rparr>\<rparr>"
    have s: "Set cache k v = (?c, Returned True)" by (rule Set_hit[OF m i a(2,3)])
    have ik: "k \<in> fst ` set (entries cache)" using i f(1) by (metis domI)
    have ix': "indexed ?c" by (rule updated_indexed[OF ix i a(3)])
    have "length (a # remove1 a (elems (queue cache))) = length (elems (queue cache))"
      using a(2) by (simp add: length_remove1) (metis Suc_pred length_pos_if_in_set)
    then have inv': "cacheInv ?c" using assms ix' by (simp add: cacheInv_def Len_def)
    have e': "entries ?c = (k, v) # filter (\<lambda>p. fst p \<noteq> k) (entries cache)"
      by (rule updated_entries[OF ix i a(3)])
    have "length (entries ?c) = length (entries cache)"
      using length_entries[OF ix'] length_entries[OF ix]
        \<open>length (a # remove1 a (elems (queue cache))) = length (elems (queue cache))\<close>
      by (simp add: Len_def)
    then have "length ((k, v) # filter (\<lambda>p. fst p \<noteq> k) (entries cache)) \<le> nat (capacity cache)"
      using e' f(3) by simp
    then have "take (nat (capacity cache)) ((k, v) # filter (\<lambda>p. fst p \<noteq> k) (entries cache)) =
        (k, v) # filter (\<lambda>p. fst p \<noteq> k) (entries cache)"
      by (rule take_all)
    then show ?thesis using s ik inv' e' by simp
  qed
qed

lemma New_inv: "New C = Inr c0 \<Longrightarrow> cacheInv c0 \<and> capacity c0 = C \<and> entries c0 = []"
  by (auto simp: New_def emptyCache_def cacheInv_def indexed_def Len_def entries_def
      split: if_splits)

lemma run_inv:
  "cacheInv cache \<Longrightarrow> \<exists>c'. run cache ops = Some c' \<and> cacheInv c' \<and> capacity c' = capacity cache"
proof (induction ops arbitrary: cache)
  case Nil
  then show ?case by simp
next
  case (Cons x ops)
  show ?case
  proof (cases x)
    case (SetOp k v)
    from Set_spec[OF Cons.prems, of k v] obtain c1 b where
      c1: "Set cache k v = (c1, Returned b)" "cacheInv c1" "capacity c1 = capacity cache"
      by blast
    from Cons.IH[OF c1(2)] show ?thesis using c1 SetOp by simp
  next
    case (GetOp k)
    from Get_spec[OF Cons.prems, of k] obtain c1 r where
      c1: "Get cache k = (c1, Returned r)" "cacheInv c1" "capacity c1 = capacity cache"
      by blast
    from Cons.IH[OF c1(2)] show ?thesis using c1 GetOp by simp
  qed
qed

lemma reachable_inv:
  assumes "New C = Inr c0" and "run c0 ops = Some cache"
  shows "cacheInv cache \<and> capacity cache = C"
  using New_inv[OF assms(1)] run_inv[of c0 ops] assms(2) by auto

section \<open>The queue is ordered by the last call\<close>

lemma filter_take_distinct:
  assumes "distinct L"
  shows "filter (\<lambda>x. x \<in> set (take m L)) L = take m L"
proof -
  have d: "set (take m L) \<inter> set (drop m L) = {}"
    using assms by (metis append_take_drop_id distinct_append)
  have g: "filter (\<lambda>x. x \<in> set A) (A @ B) = A" if "set A \<inter> set B = {}" for A B :: "'a list"
    using that by (auto simp: filter_empty_conv)
  show ?thesis using g[OF d] by simp
qed

lemma keys_filter: "map fst (filter (\<lambda>p. fst p \<noteq> k) xs) = filter (\<lambda>x. x \<noteq> k) (map fst xs)"
  by (induction xs) auto

lemma recency_miss:
  assumes "filter (\<lambda>x. x \<in> set keys) acc = keys" and "k \<notin> set keys"
  shows "filter (\<lambda>x. x \<in> set keys) (k # removeAll k acc) = keys"
proof -
  have "filter (\<lambda>x. x \<in> set keys) (removeAll k acc) = filter (\<lambda>x. x \<in> set keys) acc"
    using assms(2) by (induction acc) auto
  then show ?thesis using assms by simp
qed

lemma recency_hit:
  assumes "filter (\<lambda>x. x \<in> set keys) acc = keys" and "k \<in> set keys"
    and "keys' = k # filter (\<lambda>x. x \<noteq> k) keys"
  shows "filter (\<lambda>x. x \<in> set keys') (k # removeAll k acc) = keys'"
proof -
  have s: "set keys' = set keys" using assms(2,3) by auto
  have "filter (\<lambda>x. x \<in> set keys) (removeAll k acc) =
      filter (\<lambda>x. x \<noteq> k) (filter (\<lambda>x. x \<in> set keys) acc)"
    by (induction acc) auto
  then show ?thesis using assms s by simp
qed


lemma filter_insert_removeAll:
  assumes "\<forall>x \<in> S. P x \<and> x \<noteq> k"
  shows "filter (\<lambda>x. x = k \<or> x \<in> S) (removeAll k acc) =
         filter (\<lambda>x. x \<in> S) (filter (\<lambda>x. P x \<and> x \<noteq> k) acc)"
  using assms by (induction acc) auto

lemma recency_set:
  assumes "filter (\<lambda>x. x \<in> set keys) acc = keys" and "distinct keys"
    and "keys' = k # take m (filter (\<lambda>x. x \<noteq> k) keys)"
  shows "filter (\<lambda>x. x \<in> set keys') (k # removeAll k acc) = keys'"
proof -
  define L where "L = filter (\<lambda>x. x \<noteq> k) keys"
  define T where "T = take m L"
  have dL: "distinct L" using assms(2) by (simp add: L_def)
  have sub: "\<forall>x \<in> set T. x \<in> set keys \<and> x \<noteq> k"
  proof
    fix x assume "x \<in> set T"
    then have "x \<in> set L" unfolding T_def by (rule in_set_takeD)
    then show "x \<in> set keys \<and> x \<noteq> k" by (simp add: L_def)
  qed
  have "filter (\<lambda>x. x \<noteq> k) (filter (\<lambda>x. x \<in> set keys) acc) = L"
    by (simp only: assms(1) L_def)
  then have L: "filter (\<lambda>x. x \<in> set keys \<and> x \<noteq> k) acc = L" by simp
  have k': "keys' = k # T" by (simp add: assms(3) T_def L_def)
  have "filter (\<lambda>x. x = k \<or> x \<in> set T) (removeAll k acc) =
      filter (\<lambda>x. x \<in> set T) (filter (\<lambda>x. x \<in> set keys \<and> x \<noteq> k) acc)"
    using sub by (rule filter_insert_removeAll)
  also have "\<dots> = filter (\<lambda>x. x \<in> set T) L" by (simp only: L)
  also have "\<dots> = T" unfolding T_def by (rule filter_take_distinct[OF dL])
  finally show ?thesis by (simp add: k')
qed


lemma present_iff:
  assumes "cacheInv cache"
  shows "(items cache x \<noteq> None) = (x \<in> set (map fst (entries cache)))"
  using cacheInv_facts(1)[OF assms] by (auto simp: dom_def)

lemma recency_inv_iff:
  assumes "cacheInv cache"
  shows "filter (\<lambda>x. items cache x \<noteq> None) acc = filter (\<lambda>x. x \<in> set (map fst (entries cache))) acc"
  by (simp only: present_iff[OF assms])

lemma Set_recency:
  assumes "cacheInv cache"
    and "filter (\<lambda>x. items cache x \<noteq> None) acc = map fst (entries cache)"
    and "Set cache k v = (c', r)"
  shows "filter (\<lambda>x. items c' x \<noteq> None) (k # removeAll k acc) = map fst (entries c')"
proof -
  from Set_spec[OF assms(1), of k v] assms(3) have
    inv': "cacheInv c'" and
    e': "entries c' = take (nat (capacity cache)) ((k, v) # filter (\<lambda>p. fst p \<noteq> k) (entries cache))"
    by auto
  obtain m where m: "nat (capacity cache) = Suc m"
    using cacheInv_facts(4)[OF assms(1)] by (cases "nat (capacity cache)") auto
  have k': "map fst (entries c') = k # take m (filter (\<lambda>x. x \<noteq> k) (map fst (entries cache)))"
    by (simp add: e' m take_map keys_filter[symmetric])
  have h: "filter (\<lambda>x. x \<in> set (map fst (entries cache))) acc = map fst (entries cache)"
    using assms(2) by (simp only: recency_inv_iff[OF assms(1)])
  have "filter (\<lambda>x. x \<in> set (map fst (entries c'))) (k # removeAll k acc) = map fst (entries c')"
    by (rule recency_set[OF h cacheInv_facts(2)[OF assms(1)] k'])
  then show ?thesis by (simp only: recency_inv_iff[OF inv'])
qed

lemma Get_recency:
  assumes "cacheInv cache"
    and "filter (\<lambda>x. items cache x \<noteq> None) acc = map fst (entries cache)"
    and "Get cache k = (c', r)"
  shows "filter (\<lambda>x. items c' x \<noteq> None) (k # removeAll k acc) = map fst (entries c')"
proof -
  from Get_spec[OF assms(1), of k] assms(3) have
    inv': "cacheInv c'" and
    e': "entries c' = (case map_of (entries cache) k of
                         None \<Rightarrow> entries cache
                       | Some v \<Rightarrow> (k, v) # filter (\<lambda>p. fst p \<noteq> k) (entries cache))"
    by auto
  have h: "filter (\<lambda>x. x \<in> set (map fst (entries cache))) acc = map fst (entries cache)"
    using assms(2) by (simp only: recency_inv_iff[OF assms(1)])
  have "filter (\<lambda>x. x \<in> set (map fst (entries c'))) (k # removeAll k acc) = map fst (entries c')"
  proof (cases "map_of (entries cache) k")
    case None
    then have nk: "k \<notin> set (map fst (entries cache))" by (simp add: map_of_eq_None_iff)
    have "entries c' = entries cache" using e' None by simp
    then show ?thesis using recency_miss[OF h nk] by simp
  next
    case (Some w)
    then have ik: "k \<in> set (map fst (entries cache))"
      by (metis map_of_eq_None_iff option.distinct(1) set_map)
    have k': "map fst (entries c') = k # filter (\<lambda>x. x \<noteq> k) (map fst (entries cache))"
      using e' Some by (simp add: keys_filter)
    show ?thesis by (rule recency_hit[OF h ik k'])
  qed
  then show ?thesis by (simp only: recency_inv_iff[OF inv'])
qed

lemma run_recency:
  assumes "cacheInv cache"
    and "filter (\<lambda>x. items cache x \<noteq> None) acc = map fst (entries cache)"
    and "run cache ops = Some c'"
  shows "filter (\<lambda>x. items c' x \<noteq> None) (foldl touch acc ops) = map fst (entries c')"
  using assms
proof (induction ops arbitrary: cache acc)
  case Nil
  then show ?case by simp
next
  case (Cons x ops)
  show ?case
  proof (cases x)
    case (SetOp k v)
    from Set_spec[OF Cons.prems(1), of k v] obtain c1 b where
      c1: "Set cache k v = (c1, Returned b)" "cacheInv c1" by blast
    have r: "run c1 ops = Some c'" using Cons.prems(3) c1(1) SetOp by simp
    have "filter (\<lambda>x. items c1 x \<noteq> None) (touch acc x) = map fst (entries c1)"
      using Set_recency[OF Cons.prems(1,2) c1(1)] SetOp by (simp add: touch_def)
    from Cons.IH[OF c1(2) this r] show ?thesis by simp
  next
    case (GetOp k)
    from Get_spec[OF Cons.prems(1), of k] obtain c1 b where
      c1: "Get cache k = (c1, Returned b)" "cacheInv c1" by blast
    have r: "run c1 ops = Some c'" using Cons.prems(3) c1(1) GetOp by simp
    have "filter (\<lambda>x. items c1 x \<noteq> None) (touch acc x) = map fst (entries c1)"
      using Get_recency[OF Cons.prems(1,2) c1(1)] GetOp by (simp add: touch_def)
    from Cons.IH[OF c1(2) this r] show ?thesis by simp
  qed
qed

lemma reachable_recency:
  assumes "New C = Inr c0" and "run c0 ops = Some cache"
  shows "map fst (entries cache) = byRecency cache ops"
proof -
  have i: "cacheInv c0" and e: "entries c0 = []" using New_inv[OF assms(1)] by simp_all
  have "filter (\<lambda>x. items c0 x \<noteq> None) [] = map fst (entries c0)" using e by simp
  from run_recency[OF i this assms(2)] show ?thesis by (simp add: byRecency_def touched_def)
qed

section \<open>Overflow and hits on a cache that satisfies the invariant\<close>

lemma entries_split_last:
  assumes "map fst xs = ks @ [k1]"
  shows "\<exists>front v1. xs = front @ [(k1, v1)] \<and> map fst front = ks"
proof -
  have ne: "xs \<noteq> []" using assms by auto
  then have xs: "xs = butlast xs @ [last xs]" by simp
  have "map fst (butlast xs) @ [fst (last xs)] = ks @ [k1]"
    using assms xs by (metis list.simps(8) list.simps(9) map_append)
  then have "map fst (butlast xs) = ks" and "fst (last xs) = k1" by simp_all
  then have "xs = butlast xs @ [(k1, snd (last xs))] \<and> map fst (butlast xs) = ks"
    using xs by (metis prod.collapse)
  then show ?thesis by blast
qed

lemma Get_found:
  assumes "cacheInv cache" and "map_of (entries cache) k = Some w"
  shows "\<exists>c'. Get cache k = (c', Returned (w, True))"
  using Get_spec[OF assms(1), of k] assms(2) by auto

lemma overflow_core:
  assumes inv: "cacheInv cache"
    and keys: "map fst (entries cache) = ks @ [k1]"
    and full: "int (length (ks @ [k1])) = capacity cache"
    and new: "items cache k = None"
  shows "\<exists>c'. Set cache k v = (c', Returned False) \<and>
           cacheInv c' \<and> capacity c' = capacity cache \<and>
           map fst (entries c') = k # ks \<and>
           Get c' k1 = (c', Returned (Nil, False)) \<and>
           (\<exists>c''. Get c' k = (c'', Returned (v, True))) \<and>
           (\<forall>k' \<in> set ks. \<exists>w c1 c2. Get cache k' = (c1, Returned (w, True)) \<and>
                                    Get c' k' = (c2, Returned (w, True))) \<and>
           k1 \<in> dom (items cache) \<and>
           dom (items c') = insert k (dom (items cache) - {k1}) \<and>
           card (dom (items c')) = card (dom (items cache))"
proof -
  note f = cacheInv_facts[OF inv]
  from entries_split_last[OF keys] obtain front v1 where
    fr: "entries cache = front @ [(k1, v1)]" "map fst front = ks" by blast
  have d: "distinct (ks @ [k1])" using f(2) keys by simp
  then have k1ks: "k1 \<notin> set ks" by simp
  have domc: "dom (items cache) = insert k1 (set ks)"
    using f(1) keys by (metis Un_insert_right append_Nil2 list.simps(15) set_append set_map)
  have knew: "k \<notin> insert k1 (set ks)" using new domc by (metis domIff)
  have nk: "k \<notin> fst ` set (entries cache)" using new f(1) by (metis domIff)
  then have fl: "filter (\<lambda>p. fst p \<noteq> k) (entries cache) = entries cache"
    by (auto simp: filter_id_conv)
  have len: "length front = length ks" using fr(2) by (metis length_map)
  have n: "nat (capacity cache) = Suc (length front)" using full len by simp
  from Set_spec[OF inv, of k v] obtain c' where
    c': "Set cache k v = (c', Returned (k \<in> fst ` set (entries cache)))" "cacheInv c'"
      "entries c' = take (nat (capacity cache)) ((k, v) # filter (\<lambda>p. fst p \<noteq> k) (entries cache))"
      "capacity c' = capacity cache"
    by blast
  have "entries c' = take (Suc (length front)) ((k, v) # entries cache)"
    using c'(3) fl n by simp
  then have e': "entries c' = (k, v) # front" by (simp add: fr(1))
  note f' = cacheInv_facts[OF c'(2)]
  have s: "Set cache k v = (c', Returned False)" using c'(1) nk by simp
  have k': "map fst (entries c') = k # ks" using e' fr(2) by simp
  have dom': "dom (items c') = insert k (set ks)"
    using f'(1) k' by (metis list.simps(15) set_map)
  have "k1 \<notin> dom (items c')" using dom' knew k1ks by auto
  then have "items c' k1 = None" by (simp add: domIff)
  then have g1: "Get c' k1 = (c', Returned (Nil, False))" using f'(5) by (simp add: Get_miss)
  have "map_of (entries c') k = Some v" by (simp add: e')
  then have gk: "\<exists>c''. Get c' k = (c'', Returned (v, True))" by (rule Get_found[OF c'(2)])
  have rest: "\<exists>w c1 c2. Get cache k' = (c1, Returned (w, True)) \<and> Get c' k' = (c2, Returned (w, True))"
    if "k' \<in> set ks" for k'
  proof -
    have "k' \<in> fst ` set front" using that fr(2) by (metis set_map)
    then obtain w where w: "map_of front k' = Some w"
      by (metis map_of_eq_None_iff not_Some_eq)
    have "k' \<noteq> k" using that knew by auto
    then have m': "map_of (entries c') k' = Some w" using w by (simp add: e')
    have m: "map_of (entries cache) k' = Some w" using w by (simp add: fr(1) map_add_Some_iff)
    show ?thesis using Get_found[OF inv m] Get_found[OF c'(2) m'] by blast
  qed
  have deq: "dom (items c') = insert k (dom (items cache) - {k1})"
    using dom' domc k1ks by auto
  have "card (insert k (set ks)) = card (insert k1 (set ks))"
    using knew k1ks by simp
  then have ceq: "card (dom (items c')) = card (dom (items cache))" using dom' domc by simp
  have k1in: "k1 \<in> dom (items cache)" using domc by simp
  show ?thesis
  proof (rule exI[of _ c'], intro conjI ballI)
    show "Set cache k v = (c', Returned False)" by (rule s)
    show "cacheInv c'" by (rule c'(2))
    show "capacity c' = capacity cache" by (rule c'(4))
    show "map fst (entries c') = k # ks" by (rule k')
    show "Get c' k1 = (c', Returned (Nil, False))" by (rule g1)
    show "\<exists>c''. Get c' k = (c'', Returned (v, True))" by (rule gk)
    show "\<exists>w c1 c2. Get cache k' = (c1, Returned (w, True)) \<and> Get c' k' = (c2, Returned (w, True))"
      if "k' \<in> set ks" for k' using that by (rule rest)
    show "k1 \<in> dom (items cache)" by (rule k1in)
    show "dom (items c') = insert k (dom (items cache) - {k1})" by (rule deq)
    show "card (dom (items c')) = card (dom (items cache))" by (rule ceq)
  qed
qed

lemma Get_hit_spec:
  assumes "cacheInv cache" and "items cache k \<noteq> None"
  shows "\<exists>c' w. Get cache k = (c', Returned (w, True)) \<and>
           items c' = items cache \<and> cacheInv c' \<and> capacity c' = capacity cache \<and>
           entries c' = (k, w) # filter (\<lambda>p. fst p \<noteq> k) (entries cache)"
proof -
  have ix: "indexed cache" and m: "\<not> mutex cache" using assms(1) by (simp_all add: cacheInv_def)
  obtain p where p: "items cache k = Some p" using assms(2) by auto
  from indexed_key[OF ix p] obtain a it where
    a: "p = Some a" "a \<in> set (elems (queue cache))" "Value (queue cache) a = Item it" by blast
  have i: "items cache k = Some (Some a)" using p a(1) by simp
  let ?c = "cache\<lparr>queue := (queue cache)\<lparr>elems := a # remove1 a (elems (queue cache))\<rparr>\<rparr>"
  have g: "Get cache k = (?c, Returned (val it, True))" by (rule Get_hit[OF m i a(2,3)])
  from Get_spec[OF assms(1), of k] g have inv': "cacheInv ?c" and cap: "capacity ?c = capacity cache"
    by simp_all
  have e: "entries ?c = (k, val it) # filter (\<lambda>p. fst p \<noteq> k) (entries cache)"
    by (rule moved_entries[OF ix i a(3)])
  have it: "items ?c = items cache" by simp
  show ?thesis using g it inv' cap e by blast
qed

section \<open>The invariant and the mutex across a call\<close>

lemma Set_indexed:
  assumes "indexed cache" and "\<not> mutex cache"
  shows "\<exists>c' wasPresent. Set cache k v = (c', Returned wasPresent) \<and> indexed c' \<and> \<not> mutex c'"
proof (cases "items cache k")
  case None
  have "indexed (deleteUnusedIfOverflow (pushed cache k v))"
    by (rule deleted_indexed[OF pushed_indexed[OF assms(1) None]])
  moreover have "\<not> mutex (deleteUnusedIfOverflow (pushed cache k v))"
    using assms(2) by (simp add: deleteUnusedIfOverflow_mutex_sel pushed_def)
  ultimately show ?thesis using Set_new[OF assms(2) None, of v]
    by (intro exI[of _ "deleteUnusedIfOverflow (pushed cache k v)"] exI[of _ False]) simp
next
  case (Some p)
  from indexed_key[OF assms(1) Some] obtain a it where
    a: "p = Some a" "a \<in> set (elems (queue cache))" "Value (queue cache) a = Item it" by blast
  have i: "items cache k = Some (Some a)" using Some a(1) by simp
  let ?c = "cache\<lparr>queue := (queue cache)\<lparr>elems := a # remove1 a (elems (queue cache)),
      Value := (Value (queue cache))(a := Item (it\<lparr>val := v\<rparr>))\<rparr>\<rparr>"
  show ?thesis
    using Set_hit[OF assms(2) i a(2,3), of v] updated_indexed[OF assms(1) i a(3), of v] assms(2)
    by (intro exI[of _ ?c] exI[of _ True]) simp
qed

lemma Get_indexed:
  assumes "indexed cache" and "\<not> mutex cache"
  shows "\<exists>c' r. Get cache k = (c', Returned r) \<and> indexed c' \<and> \<not> mutex c'"
proof (cases "items cache k")
  case None
  show ?thesis using Get_miss[OF assms(2) None] assms
    by (intro exI[of _ cache] exI[of _ "(Nil, False)"]) simp
next
  case (Some p)
  from indexed_key[OF assms(1) Some] obtain a it where
    a: "p = Some a" "a \<in> set (elems (queue cache))" "Value (queue cache) a = Item it" by blast
  have i: "items cache k = Some (Some a)" using Some a(1) by simp
  let ?c = "cache\<lparr>queue := (queue cache)\<lparr>elems := a # remove1 a (elems (queue cache))\<rparr>\<rparr>"
  show ?thesis
    using Get_hit[OF assms(2) i a(2,3)] moved_indexed[OF assms(1) a(2)] assms(2)
    by (intro exI[of _ ?c] exI[of _ "(val it, True)"]) simp
qed

lemma New_indexed: "New C = Inr c0 \<Longrightarrow> indexed c0 \<and> \<not> mutex c0"
  using New_inv[of C c0] by (simp add: cacheInv_def)





section \<open>The properties of the specification\<close>

text \<open>The equations that evaluate the calls on a concrete cache.\<close>

lemmas ev = New_def emptyCache_def Set_def Get_def Lock_def Unlock_def PushFront_def Front_def
  Back_def Len_def MoveToFront_def Remove_def deleteUnusedIfOverflow_def unindex_def
  entries_def Let_def byRecency_def touched_def touch_def

text \<open>
  C6. \<open>Get\<close> on a key that is not in the index returns the zero value \<open>nil\<close> and
  \<open>false\<close> and leaves the whole cache as it was: the queue and its order, the number of
  entries and every stored binding. The mutex must be free at the call, as it is between
  calls.
\<close>

theorem Get_absent_is_noop:
  assumes "\<not> mutex cache" and "items cache k = None"
  shows "Get cache k = (cache, Returned (Nil, False))"
  using assms by (rule Get_miss)

theorem Get_absent_is_noop_witness:
  "\<not> mutex (the (run (emptyCache 2) [SetOp ''b'' (Dyn (1::nat))])) \<and>
   items (the (run (emptyCache 2) [SetOp ''b'' (Dyn (1::nat))])) ''a'' = None \<and>
   Get (the (run (emptyCache 2) [SetOp ''b'' (Dyn (1::nat))])) ''a'' =
     (the (run (emptyCache 2) [SetOp ''b'' (Dyn 1)]), Returned (Nil, False))"
proof -
  let ?c = "the (run (emptyCache 2) [SetOp ''b'' (Dyn (1::nat))])"
  have h1: "\<not> mutex ?c" by (simp add: ev)
  have h2: "items ?c ''a'' = None" by (simp add: ev)
  show ?thesis using h1 h2 Get_absent_is_noop[OF h1 h2] by simp
qed


text \<open>
  C4. For a cache created with a capacity \<open>C\<close> (so \<open>C \<ge> 1\<close>), at any later time and for
  every key and value: \<open>Set(k, v)\<close> returns, and a \<open>Get(k)\<close> right after it returns
  \<open>(v, true)\<close>.
\<close>

theorem Get_after_Set:
  assumes "New C = Inr c0" and "run c0 ops = Some cache"
  shows "\<exists>c1 wasPresent c2. Set cache k v = (c1, Returned wasPresent) \<and>
           Get c1 k = (c2, Returned (v, True))"
proof -
  have inv: "cacheInv cache" and cap: "capacity cache = C"
    using reachable_inv[OF assms] by simp_all
  from Set_spec[OF inv, of k v] obtain c1 where
    c1: "Set cache k v = (c1, Returned (k \<in> fst ` set (entries cache)))" "cacheInv c1"
      "entries c1 = take (nat (capacity cache)) ((k, v) # filter (\<lambda>p. fst p \<noteq> k) (entries cache))"
    by blast
  obtain m where m: "nat (capacity cache) = Suc m"
    using cacheInv_facts(4)[OF inv] by (cases "nat (capacity cache)") auto
  have "map_of (entries c1) k = Some v" by (simp add: c1(3) m)
  then show ?thesis using Get_spec[OF c1(2), of k] c1(1) by auto
qed

theorem Get_after_Set_witness:
  "New 2 = Inr (emptyCache 2 :: (string, nat) lruCache) \<and>
   run (emptyCache 2) [SetOp ''a'' (Dyn 1), SetOp ''b'' (Dyn 2)] =
     Some (the (run (emptyCache 2) [SetOp ''a'' (Dyn (1::nat)), SetOp ''b'' (Dyn 2)])) \<and>
   (\<exists>c1 wasPresent c2.
      Set (the (run (emptyCache 2) [SetOp ''a'' (Dyn (1::nat)), SetOp ''b'' (Dyn 2)])) ''c'' (Dyn 3)
        = (c1, Returned wasPresent) \<and>
      Get c1 ''c'' = (c2, Returned (Dyn 3, True)))"
proof -
  let ?ops = "[SetOp ''a'' (Dyn (1::nat)), SetOp ''b'' (Dyn 2)]"
  have h1: "New 2 = Inr (emptyCache 2 :: (string, nat) lruCache)" by (simp add: New_def)
  have h2: "run (emptyCache 2) ?ops = Some (the (run (emptyCache 2) ?ops))" by (simp add: ev)
  show ?thesis by (intro conjI h1 h2 Get_after_Set[OF h1 h2])
qed

text \<open>
  C5. On a cache that satisfies the correspondence \<open>indexed\<close> and whose mutex is free
  (every cache reached from a new one does), \<open>Set(k, v2)\<close> on a key that the cache holds returns \<open>true\<close>, leaves the index as it
  was (the value is replaced in the element that was there, and no binding is removed),
  puts \<open>k\<close> with the new value at the front of the queue and keeps the other entries, with
  their values, in their order; the number of entries is unchanged, and \<open>Get(k)\<close> then
  returns the new value.
\<close>

theorem Set_present_updates:
  assumes "indexed cache" and "\<not> mutex cache" and "items cache k \<noteq> None"
  shows "\<exists>c'. Set cache k v2 = (c', Returned True) \<and>
           items c' = items cache \<and>
           entries c' = (k, v2) # filter (\<lambda>p. fst p \<noteq> k) (entries cache) \<and>
           length (entries c') = length (entries cache) \<and>
           card (dom (items c')) = card (dom (items cache)) \<and>
           (\<exists>c''. Get c' k = (c'', Returned (v2, True)))"
proof -
  note ix = assms(1) and m = assms(2)
  obtain p where p: "items cache k = Some p" using assms(3) by auto
  from indexed_key[OF ix p] obtain a it where
    a: "p = Some a" "a \<in> set (elems (queue cache))" "Value (queue cache) a = Item it" by blast
  have i: "items cache k = Some (Some a)" using p a(1) by simp
  let ?c = "cache\<lparr>queue := (queue cache)\<lparr>elems := a # remove1 a (elems (queue cache)),
      Value := (Value (queue cache))(a := Item (it\<lparr>val := v2\<rparr>))\<rparr>\<rparr>"
  have s: "Set cache k v2 = (?c, Returned True)" by (rule Set_hit[OF m i a(2,3)])
  have ix': "indexed ?c" by (rule updated_indexed[OF ix i a(3)])
  have e: "entries ?c = (k, v2) # filter (\<lambda>p. fst p \<noteq> k) (entries cache)"
    by (rule updated_entries[OF ix i a(3)])
  have it: "items ?c = items cache" by simp
  have "length (a # remove1 a (elems (queue cache))) = length (elems (queue cache))"
    using a(2) by (simp add: length_remove1) (metis Suc_pred length_pos_if_in_set)
  then have l: "length (entries ?c) = length (entries cache)"
    using length_entries[OF ix] length_entries[OF ix'] by (simp add: Len_def)
  have m': "\<not> mutex ?c" using m by simp
  have i': "items ?c k = Some (Some a)" using i by simp
  have a': "a \<in> set (elems (queue ?c))" by simp
  have V': "Value (queue ?c) a = Item (it\<lparr>val := v2\<rparr>)" by simp
  have "\<exists>c''. Get ?c k = (c'', Returned (val (it\<lparr>val := v2\<rparr>), True))"
    using Get_hit[OF m' i' a' V'] by (rule exI)
  then have g: "\<exists>c''. Get ?c k = (c'', Returned (v2, True))" by simp
  have c: "card (dom (items ?c)) = card (dom (items cache))" by simp
  show ?thesis by (rule exI[of _ ?c]) (intro conjI s it e l c g)
qed

theorem Set_present_updates_witness:
  "indexed (the (run (emptyCache 2) [SetOp ''a'' (Dyn (1::nat)), SetOp ''b'' (Dyn 2)])) \<and>
   \<not> mutex (the (run (emptyCache 2) [SetOp ''a'' (Dyn (1::nat)), SetOp ''b'' (Dyn 2)])) \<and>
   items (the (run (emptyCache 2) [SetOp ''a'' (Dyn (1::nat)), SetOp ''b'' (Dyn 2)])) ''a'' \<noteq> None \<and>
   entries (the (run (emptyCache 2) [SetOp ''a'' (Dyn (1::nat)), SetOp ''b'' (Dyn 2)])) =
     [(''b'', Dyn 2), (''a'', Dyn 1)] \<and>
   (\<exists>c'. Set (the (run (emptyCache 2) [SetOp ''a'' (Dyn (1::nat)), SetOp ''b'' (Dyn 2)])) ''a'' (Dyn 5)
        = (c', Returned True) \<and>
      entries c' = [(''a'', Dyn 5), (''b'', Dyn 2)] \<and>
      (\<exists>c''. Get c' ''a'' = (c'', Returned (Dyn 5, True))))"
proof -
  let ?ops = "[SetOp ''a'' (Dyn (1::nat)), SetOp ''b'' (Dyn 2)]"
  let ?c = "the (run (emptyCache 2) ?ops)"
  have h1: "indexed ?c" by (auto simp: ev indexed_def)
  have h2: "\<not> mutex ?c" by (simp add: ev)
  have h3: "items ?c ''a'' \<noteq> None" by (simp add: ev)
  have e: "entries ?c = [(''b'', Dyn 2), (''a'', Dyn 1)]" by (simp add: ev)
  have f: "filter (\<lambda>p. fst p \<noteq> ''a'') [(''b'', Dyn (2::nat)), (''a'', Dyn 1)] = [(''b'', Dyn 2)]"
    by simp
  from Set_present_updates[OF h1 h2 h3, of "Dyn 5"] obtain c' where
    c': "Set ?c ''a'' (Dyn 5) = (c', Returned True)"
      "entries c' = (''a'', Dyn 5) # filter (\<lambda>p. fst p \<noteq> ''a'') (entries ?c)"
      "\<exists>c''. Get c' ''a'' = (c'', Returned (Dyn 5, True))"
    by (elim exE conjE) (rule that, assumption, assumption, rule exI)
  have e': "entries c' = [(''a'', Dyn 5), (''b'', Dyn 2)]" by (simp only: c'(2) e f)
  have "\<exists>c'. Set ?c ''a'' (Dyn 5) = (c', Returned True) \<and>
      entries c' = [(''a'', Dyn 5), (''b'', Dyn 2)] \<and>
      (\<exists>c''. Get c' ''a'' = (c'', Returned (Dyn 5, True)))"
    by (rule exI[of _ c']) (intro conjI c'(1) e' c'(3))
  then show ?thesis by (intro conjI h1 h2 h3 e)
qed

text \<open>
  C2. For a cache created with capacity \<open>C\<close>, every finite sequence of \<open>Set\<close> and \<open>Get\<close>
  calls runs to its end, and after it the number of keys in the index, the number of
  entries and the length of the queue are at most \<open>C\<close>.
\<close>

theorem capacity_never_exceeded:
  assumes "New C = Inr c0"
  shows "\<exists>cache. run c0 ops = Some cache \<and>
           int (card (dom (items cache))) \<le> C \<and>
           int (length (entries cache)) \<le> C \<and>
           int (Len (queue cache)) \<le> C"
proof -
  have i0: "cacheInv c0" and c0: "capacity c0 = C" using New_inv[OF assms] by simp_all
  from run_inv[OF i0, of ops] obtain cache where
    r: "run c0 ops = Some cache" and inv: "cacheInv cache" and cap: "capacity cache = capacity c0"
    by blast
  note f = cacheInv_facts[OF inv]
  have "card (dom (items cache)) = length (entries cache)"
    using f(1,2) by (metis distinct_card length_map set_map)
  then show ?thesis using r f(3,6) cap c0 by simp
qed


theorem capacity_never_exceeded_witness:
  "New 2 = Inr (emptyCache 2 :: (string, nat) lruCache) \<and>
   (\<exists>cache. run (emptyCache 2)
        [SetOp ''a'' (Dyn (1::nat)), SetOp ''b'' (Dyn 2), SetOp ''c'' (Dyn 3), GetOp ''a''] = Some cache \<and>
      int (card (dom (items cache))) \<le> 2 \<and>
      int (length (entries cache)) \<le> 2 \<and>
      int (Len (queue cache)) \<le> 2)"
proof -
  have h1: "New 2 = Inr (emptyCache 2 :: (string, nat) lruCache)" by (simp add: New_def)
  show ?thesis by (intro conjI h1 capacity_never_exceeded[OF h1])
qed

text \<open>
  C1. A cache created with capacity \<open>C\<close> holds exactly \<open>C\<close> keys; ordered by their last
  call (\<open>Set\<close> or \<open>Get\<close>), the most recent first, they are \<open>ks\<close> followed by \<open>k1\<close>, so
  \<open>k1\<close> is the least recently touched. Then \<open>Set(k, v)\<close> with a new key \<open>k\<close> returns
  \<open>false\<close>; afterwards the queue holds \<open>k\<close> followed by \<open>ks\<close>, \<open>Get(k1)\<close> returns
  \<open>(nil, false)\<close>, \<open>Get(k)\<close> returns \<open>(v, true)\<close>, every key of \<open>ks\<close> is found with the
  value it had, and the index has lost exactly \<open>k1\<close> and gained exactly \<open>k\<close>: one
  eviction, the number of keys unchanged.
\<close>

theorem overflow_evicts_least_recent:
  assumes "New C = Inr c0" and "run c0 ops = Some cache"
    and "byRecency cache ops = ks @ [k1]"
    and "int (length (ks @ [k1])) = C"
    and "items cache k = None"
  shows "\<exists>c'. Set cache k v = (c', Returned False) \<and>
           map fst (entries c') = k # ks \<and>
           Get c' k1 = (c', Returned (Nil, False)) \<and>
           (\<exists>c''. Get c' k = (c'', Returned (v, True))) \<and>
           (\<forall>k' \<in> set ks. \<exists>w c1 c2. Get cache k' = (c1, Returned (w, True)) \<and>
                                    Get c' k' = (c2, Returned (w, True))) \<and>
           k1 \<in> dom (items cache) \<and>
           dom (items c') = insert k (dom (items cache) - {k1}) \<and>
           card (dom (items c')) = card (dom (items cache))"
proof -
  have inv: "cacheInv cache" and cap: "capacity cache = C"
    using reachable_inv[OF assms(1,2)] by simp_all
  have keys: "map fst (entries cache) = ks @ [k1]"
    using reachable_recency[OF assms(1,2)] assms(3) by simp
  have full: "int (length (ks @ [k1])) = capacity cache" using assms(4) cap by simp
  from overflow_core[OF inv keys full assms(5), of v] obtain c' where
    c': "Set cache k v = (c', Returned False) \<and>
           cacheInv c' \<and> capacity c' = capacity cache \<and>
           map fst (entries c') = k # ks \<and>
           Get c' k1 = (c', Returned (Nil, False)) \<and>
           (\<exists>c''. Get c' k = (c'', Returned (v, True))) \<and>
           (\<forall>k' \<in> set ks. \<exists>w c1 c2. Get cache k' = (c1, Returned (w, True)) \<and>
                                    Get c' k' = (c2, Returned (w, True))) \<and>
           k1 \<in> dom (items cache) \<and>
           dom (items c') = insert k (dom (items cache) - {k1}) \<and>
           card (dom (items c')) = card (dom (items cache))" ..
  show ?thesis using c' by (elim conjE) (rule exI[of _ c'], intro conjI; assumption)
qed

theorem overflow_evicts_least_recent_witness:
  "New 2 = Inr (emptyCache 2 :: (string, nat) lruCache) \<and>
   run (emptyCache 2) [SetOp ''a'' (Dyn 1), SetOp ''b'' (Dyn 2), GetOp ''a''] =
     Some (the (run (emptyCache 2) [SetOp ''a'' (Dyn (1::nat)), SetOp ''b'' (Dyn 2), GetOp ''a''])) \<and>
   byRecency (the (run (emptyCache 2) [SetOp ''a'' (Dyn (1::nat)), SetOp ''b'' (Dyn 2), GetOp ''a'']))
     [SetOp ''a'' (Dyn (1::nat)), SetOp ''b'' (Dyn 2), GetOp ''a''] = [''a''] @ [''b''] \<and>
   int (length ([''a''] @ [''b''])) = 2 \<and>
   items (the (run (emptyCache 2) [SetOp ''a'' (Dyn (1::nat)), SetOp ''b'' (Dyn 2), GetOp ''a''])) ''c'' = None \<and>
   (\<exists>c'. Set (the (run (emptyCache 2) [SetOp ''a'' (Dyn (1::nat)), SetOp ''b'' (Dyn 2), GetOp ''a'']))
           ''c'' (Dyn 3) = (c', Returned False) \<and>
      map fst (entries c') = [''c'', ''a''] \<and>
      Get c' ''b'' = (c', Returned (Nil, False)))"
proof -
  let ?ops = "[SetOp ''a'' (Dyn (1::nat)), SetOp ''b'' (Dyn 2), GetOp ''a'']"
  let ?c = "the (run (emptyCache 2) ?ops)"
  have h1: "New 2 = Inr (emptyCache 2 :: (string, nat) lruCache)" by (simp add: New_def)
  have h2: "run (emptyCache 2) ?ops = Some ?c" by (simp add: ev)
  have h3: "byRecency ?c ?ops = [''a''] @ [''b'']" by (simp add: ev)
  have h4: "int (length ([''a''] @ [''b''])) = 2" by simp
  have h5: "items ?c ''c'' = None" by (simp add: ev)
  note th = overflow_evicts_least_recent[OF h1 h2 h3 h4 h5, of "Dyn 3"]
  have "\<exists>c'. Set ?c ''c'' (Dyn 3) = (c', Returned False) \<and>
      map fst (entries c') = [''c'', ''a''] \<and> Get c' ''b'' = (c', Returned (Nil, False))"
    using th by (elim exE conjE) (intro exI conjI; assumption)
  then show ?thesis by (intro conjI h1 h2 h3 h4 h5)
qed


text \<open>
  C7, amended. \<open>Get\<close> on a key the cache holds returns its value, leaves the index as it
  was (nothing is evicted) and moves the key to the front of the queue. When the cache
  is full and holds at least two keys, \<open>ks\<close> then \<open>k2\<close> then \<open>k1\<close> by their last call
  (\<open>k1\<close> the least recently touched), a \<open>Get(k1)\<close> followed by a \<open>Set\<close> of a new key \<open>k\<close>
  keeps \<open>k1\<close> with its value and evicts \<open>k2\<close>, the key that became the least recently
  touched.
\<close>

theorem Get_protects_least_recent:
  assumes "New C = Inr c0" and "run c0 ops = Some cache"
  shows "(\<forall>k'. items cache k' \<noteq> None \<longrightarrow>
            (\<exists>c' w'. Get cache k' = (c', Returned (w', True)) \<and> items c' = items cache \<and>
               map fst (entries c') = k' # filter (\<lambda>x. x \<noteq> k') (map fst (entries cache)))) \<and>
         (byRecency cache ops = ks @ [k2, k1] \<and> int (length (ks @ [k2, k1])) = C \<and>
          items cache k = None \<longrightarrow>
            (\<exists>c1 w c2. Get cache k1 = (c1, Returned (w, True)) \<and>
               items c1 = items cache \<and>
               map fst (entries c1) = k1 # ks @ [k2] \<and>
               Set c1 k v = (c2, Returned False) \<and>
               map fst (entries c2) = k # k1 # ks \<and>
               (\<exists>c3. Get c2 k1 = (c3, Returned (w, True))) \<and>
               Get c2 k2 = (c2, Returned (Nil, False))))"
proof -
  have inv: "cacheInv cache" and cap: "capacity cache = C"
    using reachable_inv[OF assms(1,2)] by simp_all
  note f = cacheInv_facts[OF inv]
  have general: "\<exists>c' w'. Get cache k' = (c', Returned (w', True)) \<and> items c' = items cache \<and>
        map fst (entries c') = k' # filter (\<lambda>x. x \<noteq> k') (map fst (entries cache))"
    if "items cache k' \<noteq> None" for k'
  proof -
    from Get_hit_spec[OF inv that] obtain c' w' where
      g: "Get cache k' = (c', Returned (w', True))" "items c' = items cache"
        "entries c' = (k', w') # filter (\<lambda>p. fst p \<noteq> k') (entries cache)"
      by blast
    have "map fst (entries c') = k' # filter (\<lambda>x. x \<noteq> k') (map fst (entries cache))"
      by (simp add: g(3) keys_filter)
    then show ?thesis using g(1,2) by (intro exI[of _ c'] exI[of _ w']) simp
  qed
  have scenario: "\<exists>c1 w c2. Get cache k1 = (c1, Returned (w, True)) \<and>
               items c1 = items cache \<and>
               map fst (entries c1) = k1 # ks @ [k2] \<and>
               Set c1 k v = (c2, Returned False) \<and>
               map fst (entries c2) = k # k1 # ks \<and>
               (\<exists>c3. Get c2 k1 = (c3, Returned (w, True))) \<and>
               Get c2 k2 = (c2, Returned (Nil, False))"
    if h: "byRecency cache ops = ks @ [k2, k1] \<and> int (length (ks @ [k2, k1])) = C \<and>
      items cache k = None"
  proof -
  have keys: "map fst (entries cache) = ks @ [k2, k1]"
    using reachable_recency[OF assms(1,2)] h by simp
  have d: "distinct (ks @ [k2, k1])" using f(2) keys by simp
  have "k1 \<in> dom (items cache)" using f(1) keys by (metis in_set_conv_decomp list.set_intros(1) set_map append_Cons append_Nil append_assoc)
  then have p1: "items cache k1 \<noteq> None" by auto
  from Get_hit_spec[OF inv p1] obtain c1 w where
    g1: "Get cache k1 = (c1, Returned (w, True))" "items c1 = items cache" "cacheInv c1"
      "capacity c1 = capacity cache"
      "entries c1 = (k1, w) # filter (\<lambda>p. fst p \<noteq> k1) (entries cache)"
    by blast
  have fl: "filter (\<lambda>x. x \<noteq> k1) (ks @ [k2, k1]) = ks @ [k2]"
    using d by (auto simp: filter_id_conv)
  have fl': "filter (\<lambda>x. x \<noteq> k1) (map fst (entries cache)) = ks @ [k2]"
    by (simp only: keys fl)
  have keys1: "map fst (entries c1) = (k1 # ks) @ [k2]"
    by (simp add: g1(5) keys_filter fl')
  have full1: "int (length ((k1 # ks) @ [k2])) = capacity c1" using h cap g1(4) by simp
  have new1: "items c1 k = None" using h g1(2) by simp
  from overflow_core[OF g1(3) keys1 full1 new1, of v] obtain c2 where
    c2: "Set c1 k v = (c2, Returned False)" "cacheInv c2"
      "map fst (entries c2) = k # k1 # ks"
      "Get c2 k2 = (c2, Returned (Nil, False))"
      "\<forall>k' \<in> set (k1 # ks). \<exists>w c1' c2'. Get c1 k' = (c1', Returned (w, True)) \<and>
                                    Get c2 k' = (c2', Returned (w, True))"
    by (elim exE conjE) (rule that; assumption)
  have "map_of (entries c1) k1 = Some w" by (simp add: g1(5))
  from Get_found[OF g1(3) this] obtain c1' where c1': "Get c1 k1 = (c1', Returned (w, True))" ..
  from c2(5) obtain w' c1'' c3 where
    "Get c1 k1 = (c1'', Returned (w', True))" "Get c2 k1 = (c3, Returned (w', True))"
    by auto
  then have g3: "\<exists>c3. Get c2 k1 = (c3, Returned (w, True))" using c1' by auto
  show ?thesis
      using g1(1,2) keys1 c2(1,3,4) g3 by (intro exI[of _ c1] exI[of _ w] exI[of _ c2]) simp
  qed
  show ?thesis using general scenario by (intro conjI allI impI)
qed


theorem Get_protects_least_recent_witness:
  "New 2 = Inr (emptyCache 2 :: (string, nat) lruCache) \<and>
   run (emptyCache 2) [SetOp ''a'' (Dyn 1), SetOp ''b'' (Dyn 2)] =
     Some (the (run (emptyCache 2) [SetOp ''a'' (Dyn (1::nat)), SetOp ''b'' (Dyn 2)])) \<and>
   byRecency (the (run (emptyCache 2) [SetOp ''a'' (Dyn (1::nat)), SetOp ''b'' (Dyn 2)]))
     [SetOp ''a'' (Dyn (1::nat)), SetOp ''b'' (Dyn 2)] = [] @ [''b'', ''a''] \<and>
   int (length ([] @ [''b'', ''a''])) = 2 \<and>
   items (the (run (emptyCache 2) [SetOp ''a'' (Dyn (1::nat)), SetOp ''b'' (Dyn 2)])) ''c'' = None \<and>
   (\<exists>c1 w c2.
      Get (the (run (emptyCache 2) [SetOp ''a'' (Dyn (1::nat)), SetOp ''b'' (Dyn 2)])) ''a''
        = (c1, Returned (w, True)) \<and>
      items c1 = items (the (run (emptyCache 2) [SetOp ''a'' (Dyn (1::nat)), SetOp ''b'' (Dyn 2)])) \<and>
      map fst (entries c1) = ''a'' # [] @ [''b''] \<and>
      Set c1 ''c'' (Dyn 3) = (c2, Returned False) \<and>
      map fst (entries c2) = ''c'' # ''a'' # [] \<and>
      (\<exists>c3. Get c2 ''a'' = (c3, Returned (w, True))) \<and>
      Get c2 ''b'' = (c2, Returned (Nil, False)))"
proof -
  let ?ops = "[SetOp ''a'' (Dyn (1::nat)), SetOp ''b'' (Dyn 2)]"
  let ?c = "the (run (emptyCache 2) ?ops)"
  have h1: "New 2 = Inr (emptyCache 2 :: (string, nat) lruCache)" by (simp add: New_def)
  have h2: "run (emptyCache 2) ?ops = Some ?c" by (simp add: ev)
  have h3: "byRecency ?c ?ops = [] @ [''b'', ''a'']" by (simp add: ev)
  have h4: "int (length ([] @ [''b'', ''a''])) = 2" by simp
  have h5: "items ?c ''c'' = None" by (simp add: ev)
  note th = Get_protects_least_recent[OF h1 h2, where ks = "[]" and ?k2.0 = "''b''"
      and ?k1.0 = "''a''" and k = "''c''" and v = "Dyn 3"]
  have hyp: "byRecency ?c ?ops = [] @ [''b'', ''a''] \<and> int (length ([] @ [''b'', ''a''])) = 2 \<and>
      items ?c ''c'' = None"
    by (intro conjI h3 h4 h5)
  have concl: "\<exists>c1 w c2.
      Get ?c ''a'' = (c1, Returned (w, True)) \<and>
      items c1 = items ?c \<and>
      map fst (entries c1) = ''a'' # [] @ [''b''] \<and>
      Set c1 ''c'' (Dyn 3) = (c2, Returned False) \<and>
      map fst (entries c2) = ''c'' # ''a'' # [] \<and>
      (\<exists>c3. Get c2 ''a'' = (c3, Returned (w, True))) \<and>
      Get c2 ''b'' = (c2, Returned (Nil, False))"
    by (rule mp[OF conjunct2[OF th] hyp])
  show ?thesis by (intro conjI h1 h2 h3 h4 h5 concl)
qed

text \<open>
  C7 as stated fails for capacity 1: the only key \<open>a\<close> is the least recently used one, a
  \<open>Get(a)\<close> finds it, and the \<open>Set\<close> of a new key \<open>b\<close> that follows evicts \<open>a\<close> all the
  same.
\<close>

theorem Get_protects_least_recent_counterexample:
  "New 1 = Inr (emptyCache 1 :: (string, nat) lruCache) \<and>
   run (emptyCache 1) [SetOp ''a'' (Dyn 1)] =
     Some (the (run (emptyCache 1) [SetOp ''a'' (Dyn (1::nat))])) \<and>
   byRecency (the (run (emptyCache 1) [SetOp ''a'' (Dyn (1::nat))])) [SetOp ''a'' (Dyn (1::nat))]
     = [''a''] \<and>
   snd (Get (the (run (emptyCache 1) [SetOp ''a'' (Dyn (1::nat))])) ''a'')
     = Returned (Dyn 1, True) \<and>
   items (fst (Get (the (run (emptyCache 1) [SetOp ''a'' (Dyn (1::nat))])) ''a'')) ''b'' = None \<and>
   snd (Set (fst (Get (the (run (emptyCache 1) [SetOp ''a'' (Dyn (1::nat))])) ''a'')) ''b'' (Dyn 2))
     = Returned False \<and>
   snd (Get (fst (Set (fst (Get (the (run (emptyCache 1) [SetOp ''a'' (Dyn (1::nat))])) ''a''))
                    ''b'' (Dyn 2))) ''a'')
     = Returned (Nil, False)"
  by (simp add: ev)

text \<open>
  C10. The correspondence \<open>indexed\<close> between the index and the queue (every linked
  element holds a \<open>cacheItem\<close> whose key is bound in the index to that element, and every
  binding of the index points to such an element) holds for a new cache and is kept by
  every \<open>Set\<close> and every \<open>Get\<close> that starts with the mutex free; on such a cache both calls
  return, so neither type assertion \<open>.(cacheItem)\<close> panics.
\<close>

theorem index_matches_queue:
  "(New C = Inr c0 \<longrightarrow> indexed c0 \<and> \<not> mutex c0) \<and>
   (indexed cache \<and> \<not> mutex cache \<longrightarrow>
      (\<exists>c' wasPresent. Set cache k v = (c', Returned wasPresent) \<and> indexed c' \<and> \<not> mutex c') \<and>
      (\<exists>c' r. Get cache k = (c', Returned r) \<and> indexed c' \<and> \<not> mutex c'))"
proof (rule conjI)
  show "New C = Inr c0 \<longrightarrow> indexed c0 \<and> \<not> mutex c0"
    by (rule impI) (rule New_indexed)
  show "indexed cache \<and> \<not> mutex cache \<longrightarrow>
      (\<exists>c' wasPresent. Set cache k v = (c', Returned wasPresent) \<and> indexed c' \<and> \<not> mutex c') \<and>
      (\<exists>c' r. Get cache k = (c', Returned r) \<and> indexed c' \<and> \<not> mutex c')"
  proof (rule impI, rule conjI)
    assume h: "indexed cache \<and> \<not> mutex cache"
    show "\<exists>c' wasPresent. Set cache k v = (c', Returned wasPresent) \<and> indexed c' \<and> \<not> mutex c'"
      by (rule Set_indexed[OF conjunct1[OF h] conjunct2[OF h]])
    show "\<exists>c' r. Get cache k = (c', Returned r) \<and> indexed c' \<and> \<not> mutex c'"
      by (rule Get_indexed[OF conjunct1[OF h] conjunct2[OF h]])
  qed
qed

theorem index_matches_queue_witness:
  "New 2 = Inr (emptyCache 2 :: (string, nat) lruCache) \<and>
   indexed (emptyCache 2 :: (string, nat) lruCache) \<and>
   \<not> mutex (emptyCache 2 :: (string, nat) lruCache) \<and>
   indexed (the (run (emptyCache 2) [SetOp ''a'' (Dyn (1::nat))])) \<and>
   \<not> mutex (the (run (emptyCache 2) [SetOp ''a'' (Dyn (1::nat))])) \<and>
   (\<exists>c' wasPresent.
      Set (the (run (emptyCache 2) [SetOp ''a'' (Dyn (1::nat))])) ''a'' (Dyn 7)
        = (c', Returned wasPresent) \<and> indexed c' \<and> \<not> mutex c') \<and>
   (\<exists>c' r. Get (the (run (emptyCache 2) [SetOp ''a'' (Dyn (1::nat))])) ''a''
        = (c', Returned r) \<and> indexed c' \<and> \<not> mutex c')"
proof -
  let ?c = "the (run (emptyCache 2) [SetOp ''a'' (Dyn (1::nat))])"
  have h1: "New 2 = Inr (emptyCache 2 :: (string, nat) lruCache)" by (simp add: New_def)
  have e: "indexed (emptyCache 2 :: (string, nat) lruCache) \<and>
      \<not> mutex (emptyCache 2 :: (string, nat) lruCache)"
    by (rule mp[OF conjunct1[OF index_matches_queue] h1])
  have h2: "indexed ?c" by (auto simp: ev indexed_def)
  have h3: "\<not> mutex ?c" by (simp add: ev)
  have hyp: "indexed ?c \<and> \<not> mutex ?c" by (intro conjI h2 h3)
  note th = mp[OF conjunct2[OF index_matches_queue[where cache = ?c and k = "''a''" and v = "Dyn 7"
        and C = 2 and ?c0.0 = "emptyCache 2 :: (string, nat) lruCache"]] hyp]
  show ?thesis
    by (intro conjI h1 conjunct1[OF e] conjunct2[OF e] h2 h3 conjunct1[OF th] conjunct2[OF th])
qed

text \<open>
  C8. \<open>New(C)\<close> fails with \<open>InvalidCapacity\<close> exactly when \<open>C < 1\<close>, and returns the empty
  cache otherwise. On every cache reached from a new one by \<open>Set\<close> and \<open>Get\<close> calls, \<open>Set\<close>
  returns its flag and \<open>Get\<close> returns a value and its flag: no call ends in an error, a
  panic or a blocked mutex.
\<close>

theorem New_only_error:
  "(New C = (Inl InvalidCapacity :: error + ('k, 'v) lruCache) \<longleftrightarrow> C < 1) \<and>
   (1 \<le> C \<longrightarrow> New C = Inr (emptyCache C :: ('k, 'v) lruCache) \<and>
      entries (emptyCache C :: ('k, 'v) lruCache) = [] \<and>
      items (emptyCache C :: ('k, 'v) lruCache) = Map.empty) \<and>
   (New C = Inr c0 \<and> run c0 ops = Some (cache :: ('k, 'v) lruCache) \<longrightarrow>
      (\<exists>c' wasPresent. Set cache k v = (c', Returned wasPresent)) \<and>
      (\<exists>c' w found. Get cache k = (c', Returned (w, found))))"
proof (intro conjI impI)
  show "New C = (Inl InvalidCapacity :: error + ('k, 'v) lruCache) \<longleftrightarrow> C < 1"
    by (simp add: New_def)
  show "New C = Inr (emptyCache C :: ('k, 'v) lruCache)" if "1 \<le> C"
    using that by (simp add: New_def)
  show "entries (emptyCache C :: ('k, 'v) lruCache) = []"
    by (simp add: emptyCache_def entries_def)
  show "items (emptyCache C :: ('k, 'v) lruCache) = Map.empty"
    by (simp add: emptyCache_def)
  assume h: "New C = Inr c0 \<and> run c0 ops = Some cache"
  then have inv: "cacheInv cache" using reachable_inv[of C c0 ops cache] by simp
  show "\<exists>c' wasPresent. Set cache k v = (c', Returned wasPresent)"
    using Set_spec[OF inv, of k v] by blast
  show "\<exists>c' w found. Get cache k = (c', Returned (w, found))"
    using Get_spec[OF inv, of k] by (metis surj_pair)
qed


theorem New_only_error_witness:
  "(0::int) < 1 \<and> New 0 = (Inl InvalidCapacity :: error + (string, nat) lruCache) \<and>
   (1::int) \<le> 2 \<and> New 2 = Inr (emptyCache 2 :: (string, nat) lruCache) \<and>
   run (emptyCache 2) [SetOp ''a'' (Dyn 1)] =
     Some (the (run (emptyCache 2) [SetOp ''a'' (Dyn (1::nat))])) \<and>
   (\<exists>c' wasPresent. Set (the (run (emptyCache 2) [SetOp ''a'' (Dyn (1::nat))])) ''b'' (Dyn 2)
       = (c', Returned wasPresent)) \<and>
   (\<exists>c' w found. Get (the (run (emptyCache 2) [SetOp ''a'' (Dyn (1::nat))])) ''b''
       = (c', Returned (w, found)))"
proof -
  let ?ops = "[SetOp ''a'' (Dyn (1::nat))]"
  let ?c = "the (run (emptyCache 2) ?ops)"
  have a0: "(0::int) < 1" by simp
  have a2: "(1::int) \<le> 2" by simp
  note t0 = New_only_error[where C = 0 and ?c0.0 = "emptyCache 0 :: (string, nat) lruCache"]
  have n0: "New 0 = (Inl InvalidCapacity :: error + (string, nat) lruCache)"
    by (rule iffD2[OF conjunct1[OF t0] a0])
  note t2 = New_only_error[where C = 2 and ?c0.0 = "emptyCache 2 :: (string, nat) lruCache"
      and ops = ?ops and cache = ?c and k = "''b''" and v = "Dyn 2"]
  have n2: "New 2 = Inr (emptyCache 2 :: (string, nat) lruCache)"
    by (rule conjunct1[OF mp[OF conjunct1[OF conjunct2[OF t2]] a2]])
  have h2: "run (emptyCache 2) ?ops = Some ?c" by (simp add: ev)
  have hyp: "New 2 = Inr (emptyCache 2 :: (string, nat) lruCache) \<and>
      run (emptyCache 2) ?ops = Some ?c"
    by (intro conjI n2 h2)
  note r = mp[OF conjunct2[OF conjunct2[OF t2]] hyp]
  show ?thesis by (intro conjI a0 n0 a2 n2 h2 conjunct1[OF r] conjunct2[OF r])
qed

text \<open>
  Outside the invariant a call can panic. On a cache whose index binds \<open>a\<close> to a queue
  element that does not hold a \<open>cacheItem\<close> (no cache reached from a new one is like this:
  it is not \<open>indexed\<close>), \<open>Set(a, 1)\<close> panics at the type assertion with the mutex still
  locked, since it unlocks only at its end, while \<open>Get(a)\<close> panics with the mutex released
  by its deferred unlock.
\<close>

lemma Set_panic_outside_invariant:
  "\<not> indexed \<lparr>capacity = 2, queue = \<lparr>elems = [0], Value = (\<lambda>_. NotItem :: (string, nat) elemValue),
          fresh = 1\<rparr>,
        items = [''a'' \<mapsto> Some 0], mutex = False\<rparr> \<and>
   Set \<lparr>capacity = 2, queue = \<lparr>elems = [0], Value = (\<lambda>_. NotItem), fresh = 1\<rparr>,
        items = [''a'' \<mapsto> Some 0], mutex = False\<rparr> ''a'' (Dyn (1::nat)) =
     (\<lparr>capacity = 2, queue = \<lparr>elems = [0], Value = (\<lambda>_. NotItem), fresh = 1\<rparr>,
        items = [''a'' \<mapsto> Some 0], mutex = True\<rparr>, Panicked) \<and>
   Get \<lparr>capacity = 2, queue = \<lparr>elems = [0], Value = (\<lambda>_. NotItem :: (string, nat) elemValue),
          fresh = 1\<rparr>,
        items = [''a'' \<mapsto> Some 0], mutex = False\<rparr> ''a'' =
     (\<lparr>capacity = 2, queue = \<lparr>elems = [0], Value = (\<lambda>_. NotItem), fresh = 1\<rparr>,
        items = [''a'' \<mapsto> Some 0], mutex = False\<rparr>, Panicked)"
  by (simp add: ev indexed_def)



end
